theory Spec2Isabelle
  imports Complex_Main "HOL-Library.Multiset"
begin

section \<open>JavaScript primitives\<close>

text \<open>
  Strings are lists of code units (\<^typ>\<open>char\<close>, so code units below 256). In that range
  \<open>String.prototype.trim\<close> removes U+0009..U+000D, U+0020 and U+00A0.
  \<open>slice\<close> (on strings and arrays alike) and \<open>lastIndexOf\<close> follow ECMAScript: a negative
  slice bound counts from the end, and \<open>lastIndexOf(pat, from)\<close> clamps \<open>from\<close> to
  \<open>[0, length - |pat|]\<close> and answers \<open>-1\<close> when nothing is found.
  Numbers that the code only adds, compares and halves are integers here, so
  \<open>breakPoint > position + chunkSize/2\<close> is written \<open>2 * breakPoint > 2 * position + chunkSize\<close>.
\<close>

definition is_space :: "char \<Rightarrow> bool" where
  "is_space c = ((of_char c :: nat) \<in> {9, 10, 11, 12, 13, 32, 160})"

definition trim :: "string \<Rightarrow> string" where
  "trim s = rev (dropWhile is_space (rev (dropWhile is_space s)))"

definition js_slice :: "'a list \<Rightarrow> int \<Rightarrow> int \<Rightarrow> 'a list" where
  "js_slice s a b =
    (let len = int (length s);
         from = (if a < 0 then max (len + a) 0 else min a len);
         to = (if b < 0 then max (len + b) 0 else min b len)
     in take (nat (to - from)) (drop (nat from) s))"

fun lastIndexFrom :: "string \<Rightarrow> string \<Rightarrow> nat \<Rightarrow> int" where
  "lastIndexFrom s pat 0 = (if take (length pat) s = pat then 0 else - 1)"
| "lastIndexFrom s pat (Suc k) =
    (if take (length pat) (drop (Suc k) s) = pat then int (Suc k) else lastIndexFrom s pat k)"

definition lastIndexOf :: "string \<Rightarrow> string \<Rightarrow> int \<Rightarrow> int" where
  "lastIndexOf s pat fromIndex =
    (let start = min (max fromIndex 0) (int (length s) - int (length pat))
     in if start < 0 then - 1 else lastIndexFrom s pat (nat start))"

section \<open>The chunker (\<open>chunkText\<close> of the shared-embeddings module)\<close>

text \<open>
  The \<open>while\<close> loop is a partial function on the loop state \<open>(position, chunks)\<close>:
  \<open>chunk_step\<close> is one pass through its body, and a run that never leaves the loop has
  the value \<open>None\<close>.
\<close>

record chunk =
  content :: string
  index :: nat

definition endPosition_of :: "string \<Rightarrow> int \<Rightarrow> int \<Rightarrow> int" where
  "endPosition_of text chunkSize position =
    (let endPosition = min (position + chunkSize) (int (length text)) in
     if endPosition < int (length text) then
       (let lastDoubleNewline = lastIndexOf text [CHR 0x0A, CHR 0x0A] endPosition;
            lastPeriod = lastIndexOf text ''. '' endPosition;
            lastNewline = lastIndexOf text [CHR 0x0A] endPosition;
            breakPoint = max (max lastDoubleNewline lastPeriod) lastNewline
        in if 2 * breakPoint > 2 * position + chunkSize then breakPoint + 1 else endPosition)
     else endPosition)"

definition chunk_step :: "string \<Rightarrow> int \<Rightarrow> int \<Rightarrow> int \<times> chunk list \<Rightarrow> int \<times> chunk list" where
  "chunk_step text chunkSize overlap st =
    (let position = fst st; chunks = snd st;
         endPosition = endPosition_of text chunkSize position;
         chunkContent = trim (js_slice text position endPosition);
         chunks' = (if chunkContent \<noteq> [] then chunks @ [\<lparr>content = chunkContent, index = length chunks\<rparr>] else chunks);
         position' = endPosition - overlap
     in (if position' \<le> int (length chunks') * overlap then max endPosition (position' + 1) else position', chunks'))"

partial_function (option) chunk_loop :: "string \<Rightarrow> int \<Rightarrow> int \<Rightarrow> int \<times> chunk list \<Rightarrow> chunk list option" where
  "chunk_loop text chunkSize overlap st =
    (if fst st < int (length text) then chunk_loop text chunkSize overlap (chunk_step text chunkSize overlap st)
     else Some (snd st))"

declare chunk_loop.simps [code]

definition chunkText :: "string \<Rightarrow> int \<Rightarrow> int \<Rightarrow> chunk list option" where
  "chunkText text chunkSize overlap = chunk_loop text chunkSize overlap (0, [])"



section \<open>The chunker of the first embeddings module\<close>

text \<open>
  \<open>embeddings.js\<close> has an earlier \<open>chunkText\<close> (named \<open>chunkText_openai\<close> here, after the
  provider of that module). It breaks at a period or a newline and pushes every window,
  also one that trims to the empty string, so that \<open>chunks.length\<close> counts the
  iterations.
\<close>

definition endPosition_openai :: "string \<Rightarrow> int \<Rightarrow> int \<Rightarrow> int" where
  "endPosition_openai text chunkSize position =
    (let endPosition = min (position + chunkSize) (int (length text)) in
     if endPosition < int (length text) then
       (let lastPeriod = lastIndexOf text ''.'' endPosition;
            lastNewline = lastIndexOf text [CHR 0x0A] endPosition;
            breakPoint = max lastPeriod lastNewline
        in if 2 * breakPoint > 2 * position + chunkSize then breakPoint + 1 else endPosition)
     else endPosition)"

definition chunk_step_openai :: "string \<Rightarrow> int \<Rightarrow> int \<Rightarrow> int \<times> chunk list \<Rightarrow> int \<times> chunk list" where
  "chunk_step_openai text chunkSize overlap st =
    (let position = fst st; chunks = snd st;
         endPosition = endPosition_openai text chunkSize position;
         chunks' = chunks @ [\<lparr>content = trim (js_slice text position endPosition), index = length chunks\<rparr>];
         position' = endPosition - overlap
     in (if position' \<le> int (length chunks') * overlap then max endPosition (position' + 1) else position', chunks'))"

partial_function (option) chunk_loop_openai :: "string \<Rightarrow> int \<Rightarrow> int \<Rightarrow> int \<times> chunk list \<Rightarrow> chunk list option" where
  "chunk_loop_openai text chunkSize overlap st =
    (if fst st < int (length text)
     then chunk_loop_openai text chunkSize overlap (chunk_step_openai text chunkSize overlap st)
     else Some (snd st))"

declare chunk_loop_openai.simps [code]

definition chunkText_openai :: "string \<Rightarrow> int \<Rightarrow> int \<Rightarrow> chunk list option" where
  "chunkText_openai text chunkSize overlap = chunk_loop_openai text chunkSize overlap (0, [])"

section \<open>The import orchestrator (\<open>processPocketImport\<close> and its helpers)\<close>

text \<open>
  The state \<open>world\<close> holds the rows of the \<open>archives\<close> table (oldest first), the next
  row id, the URLs handed to the extractor (one entry for each attempt) and the delays
  awaited with \<open>setTimeout\<close>. The collaborators are the fields of \<open>env\<close>; each may
  depend on the world, that is on everything that has happened so far:
  \<open>extractWithFirecrawl\<close> answers the extracted page or nothing (it catches its own errors),
  \<open>basicFetch\<close> is the body of the fallback closure and answers a page or the message of the
  error it throws, and the three remaining fields say when a store call fails. A thrown
  error is the left summand of a sum type, carrying its message. \<open>item\<close> has the fields of
  a parsed row that the orchestrator reads.

  The callbacks of one batch are started together by \<open>batch.map\<close>: each runs up to its
  first \<open>await\<close>, the existence query of \<open>archiveSinglePage\<close>, before any of them goes
  on. The existence queries of a batch are therefore answered from the store as it is when
  the batch starts, before any insert of that batch. What follows the query (extraction
  and insert) is taken one item after the other in the order of the batch, which is also
  the order in which \<open>Promise.allSettled\<close> lists the outcomes. The \<open>onProgress\<close> callback
  only observes and is left out.
\<close>

record item =
  url :: string
  title :: string
  tags :: "string list"

record extracted =
  x_title :: string
  x_description :: string
  x_html :: string
  x_text :: string
  x_markdown :: string
  x_extractionMethod :: string
  x_wordCount :: nat
  x_readingTime :: nat

record archive =
  a_id :: nat
  a_user_id :: string
  a_url :: string
  a_title :: string
  a_description :: string
  a_html :: string
  a_text :: string
  a_markdown :: "string option"
  a_extraction_method :: string
  a_word_count :: nat
  a_reading_time :: nat
  a_tags :: "string list"

record world =
  archives :: "archive list"
  next_id :: nat
  extractions :: "string list"
  sleeps :: "int list"

datatype query_fault = NoFault | ErrorReply | Throws

record env =
  extractWithFirecrawl :: "world \<Rightarrow> string \<Rightarrow> extracted option"
  basicFetch :: "world \<Rightarrow> string \<Rightarrow> string \<Rightarrow> string + extracted"
  select_error :: "world \<Rightarrow> string \<Rightarrow> string \<Rightarrow> bool"
  insert_error :: "world \<Rightarrow> string \<Rightarrow> string \<Rightarrow> string option"
  in_query_fault :: "world \<Rightarrow> string \<Rightarrow> string list \<Rightarrow> query_fault"

record archive_ref =
  ref_id :: nat
  ref_url :: string
  ref_title :: string
  ref_description :: string

datatype page_result =
    Skipped archive_ref
  | Archived archive_ref
  | Failure string string

fun success :: "page_result \<Rightarrow> bool" where
  "success (Skipped a) = True"
| "success (Archived a) = True"
| "success (Failure u e) = False"

fun is_skipped :: "page_result \<Rightarrow> bool" where
  "is_skipped (Skipped a) = True"
| "is_skipped (Archived a) = False"
| "is_skipped (Failure u e) = False"

text \<open>
  The existence check ends in \<open>.single()\<close>: its \<open>data\<close> is a row when exactly one row
  matches and \<open>null\<close> otherwise, also when the query fails. The code reads \<open>data\<close> only.
\<close>

definition matching :: "world \<Rightarrow> string \<Rightarrow> string \<Rightarrow> archive list" where
  "matching w userId u = filter (\<lambda>a. a_user_id a = userId \<and> a_url a = u) (archives w)"

definition select_single :: "env \<Rightarrow> world \<Rightarrow> string \<Rightarrow> string \<Rightarrow> archive option" where
  "select_single e w userId u =
    (if select_error e w userId u then None
     else (case matching w userId u of [a] \<Rightarrow> Some a | _ \<Rightarrow> None))"

definition puppeteerFallback :: "env \<Rightarrow> world \<Rightarrow> string \<Rightarrow> string \<Rightarrow> string + extracted" where
  "puppeteerFallback e w originalTitle u =
    (case basicFetch e w originalTitle u of
       Inl msg \<Rightarrow> Inl (''Fallback extraction failed: '' @ msg)
     | Inr d \<Rightarrow> Inr d)"

definition archivePageWithFirecrawl ::
  "env \<Rightarrow> world \<Rightarrow> string \<Rightarrow> (string \<Rightarrow> string + extracted) \<Rightarrow> (string + extracted) \<times> world" where
  "archivePageWithFirecrawl e w u fallbackFunction =
    (let w' = w\<lparr>extractions := extractions w @ [u]\<rparr> in
     case extractWithFirecrawl e w u of
       Some firecrawlResult \<Rightarrow> (Inr firecrawlResult, w')
     | None \<Rightarrow>
        (case fallbackFunction u of
           Inr puppeteerResult \<Rightarrow>
             (Inr (puppeteerResult\<lparr>x_extractionMethod := ''puppeteer-fallback''\<rparr>), w')
         | Inl msg \<Rightarrow> (Inl (''Failed to extract content: '' @ msg), w')))"

definition insert_archive ::
  "env \<Rightarrow> world \<Rightarrow> string \<Rightarrow> string \<Rightarrow> extracted \<Rightarrow> string list \<Rightarrow> (string + archive) \<times> world" where
  "insert_archive e w userId u d tgs =
    (case insert_error e w userId u of
       Some msg \<Rightarrow> (Inl msg, w)
     | None \<Rightarrow>
        (let row = \<lparr>a_id = next_id w, a_user_id = userId, a_url = u, a_title = x_title d,
                    a_description = x_description d, a_html = x_html d, a_text = x_text d,
                    a_markdown = (if x_markdown d = [] then None else Some (x_markdown d)),
                    a_extraction_method =
                      (if x_extractionMethod d = [] then ''firecrawl'' else x_extractionMethod d),
                    a_word_count = x_wordCount d, a_reading_time = x_readingTime d,
                    a_tags = tgs\<rparr>
         in (Inr row, w\<lparr>archives := archives w @ [row], next_id := Suc (next_id w)\<rparr>)))"

definition archiveSinglePage_try ::
  "env \<Rightarrow> world \<Rightarrow> string \<Rightarrow> string \<Rightarrow> string \<Rightarrow> string list \<Rightarrow> (string + page_result) \<times> world" where
  "archiveSinglePage_try e w u userId originalTitle tgs =
    (case select_single e w userId u of
       Some existingArchive \<Rightarrow>
         (Inr (Skipped \<lparr>ref_id = a_id existingArchive, ref_url = a_url existingArchive,
                          ref_title = a_title existingArchive, ref_description = ''Already archived''\<rparr>), w)
     | None \<Rightarrow>
        (case archivePageWithFirecrawl e w u (puppeteerFallback e w originalTitle) of
           (Inl msg, w1) \<Rightarrow> (Inl msg, w1)
         | (Inr archivedData, w1) \<Rightarrow>
            (let archivedData' =
                   (if x_title archivedData = [] \<or> x_title archivedData = ''Untitled''
                    then archivedData\<lparr>x_title := (if originalTitle = [] then ''Untitled'' else originalTitle)\<rparr>
                    else archivedData)
             in case insert_archive e w1 userId u archivedData' tgs of
                  (Inl insertError, w2) \<Rightarrow> (Inl insertError, w2)
                | (Inr row, w2) \<Rightarrow>
                    (Inr (Archived \<lparr>ref_id = a_id row, ref_url = a_url row,
                                     ref_title = a_title row, ref_description = a_description row\<rparr>), w2))))"

definition archiveSinglePage ::
  "env \<Rightarrow> world \<Rightarrow> string \<Rightarrow> string \<Rightarrow> string \<Rightarrow> string list \<Rightarrow> (string + page_result) \<times> world" where
  "archiveSinglePage e w u userId originalTitle tgs =
    (case archiveSinglePage_try e w u userId originalTitle tgs of
       (Inl msg, w') \<Rightarrow> (Inr (Failure u msg), w')
     | (Inr r, w') \<Rightarrow> (Inr r, w'))"

text \<open>
  \<open>archiveSinglePage\<close> from the point where its existence query has been answered with
  \<open>existing\<close>; \<open>w\<close> is the store at the time the call goes on.
\<close>

definition archiveSinglePage_answered_try ::
  "env \<Rightarrow> world \<Rightarrow> archive option \<Rightarrow> string \<Rightarrow> string \<Rightarrow> string \<Rightarrow> string list \<Rightarrow>
   (string + page_result) \<times> world" where
  "archiveSinglePage_answered_try e w existing u userId originalTitle tgs =
    (case existing of
       Some existingArchive \<Rightarrow>
         (Inr (Skipped \<lparr>ref_id = a_id existingArchive, ref_url = a_url existingArchive,
                          ref_title = a_title existingArchive, ref_description = ''Already archived''\<rparr>), w)
     | None \<Rightarrow>
        (case archivePageWithFirecrawl e w u (puppeteerFallback e w originalTitle) of
           (Inl msg, w1) \<Rightarrow> (Inl msg, w1)
         | (Inr archivedData, w1) \<Rightarrow>
            (let archivedData' =
                   (if x_title archivedData = [] \<or> x_title archivedData = ''Untitled''
                    then archivedData\<lparr>x_title := (if originalTitle = [] then ''Untitled'' else originalTitle)\<rparr>
                    else archivedData)
             in case insert_archive e w1 userId u archivedData' tgs of
                  (Inl insertError, w2) \<Rightarrow> (Inl insertError, w2)
                | (Inr row, w2) \<Rightarrow>
                    (Inr (Archived \<lparr>ref_id = a_id row, ref_url = a_url row,
                                     ref_title = a_title row, ref_description = a_description row\<rparr>), w2))))"

definition archiveSinglePage_answered ::
  "env \<Rightarrow> world \<Rightarrow> archive option \<Rightarrow> string \<Rightarrow> string \<Rightarrow> string \<Rightarrow> string list \<Rightarrow>
   (string + page_result) \<times> world" where
  "archiveSinglePage_answered e w existing u userId originalTitle tgs =
    (case archiveSinglePage_answered_try e w existing u userId originalTitle tgs of
       (Inl msg, w') \<Rightarrow> (Inr (Failure u msg), w')
     | (Inr r, w') \<Rightarrow> (Inr r, w'))"

text \<open>
  \<open>checkForDuplicates\<close>: the URLs are looked up in slices of 100. A slice whose query
  reports an error is skipped; an exception leaves the loop through the outer \<open>catch\<close>,
  which declares every row new.
\<close>

function dup_scan ::
  "env \<Rightarrow> world \<Rightarrow> string \<Rightarrow> string list \<Rightarrow> nat \<Rightarrow> string list \<Rightarrow> string list option" where
  "dup_scan e w userId urlList i existingUrls =
    (if i < length urlList then
       (let batch = take 100 (drop i urlList) in
        case in_query_fault e w userId batch of
          Throws \<Rightarrow> None
        | ErrorReply \<Rightarrow> dup_scan e w userId urlList (i + 100) existingUrls
        | NoFault \<Rightarrow>
            dup_scan e w userId urlList (i + 100)
              (existingUrls @
               map a_url (filter (\<lambda>a. a_user_id a = userId \<and> a_url a \<in> set batch) (archives w))))
     else Some existingUrls)"
  by pat_completeness auto
termination
  by (relation "measure (\<lambda>(e, w, userId, urlList, i, existingUrls). length urlList - i)") auto

declare dup_scan.simps [simp del]

definition checkForDuplicates ::
  "env \<Rightarrow> world \<Rightarrow> item list \<Rightarrow> string \<Rightarrow> item list \<times> item list" where
  "checkForDuplicates e w urls userId =
    (case dup_scan e w userId (map url urls) 0 [] of
       None \<Rightarrow> (urls, [])
     | Some existingUrls \<Rightarrow>
         (filter (\<lambda>it. url it \<notin> set existingUrls) urls,
          filter (\<lambda>it. url it \<in> set existingUrls) urls))"

record options =
  batchSize :: int
  delayBetweenBatches :: int
  delayBetweenRequests :: int
  maxRetries :: int

record summary =
  total :: nat
  successful :: nat
  failed :: nat
  results :: "page_result list"
  duplicates :: nat
  skipped :: nat

text \<open>
  The retry loop of one item. \<open>archiveSinglePage\<close> answers a resolved (\<open>Inr\<close>) or a
  rejected (\<open>Inl\<close>) promise; \<open>result\<close> stays \<open>null\<close> (\<open>None\<close>) when the loop body never runs.
\<close>

function retry_loop ::
  "env \<Rightarrow> options \<Rightarrow> string \<Rightarrow> item \<Rightarrow> int \<Rightarrow> world \<Rightarrow> page_result option \<times> world" where
  "retry_loop e opts userId urlData retries w =
    (if retries \<le> maxRetries opts then
       (case archiveSinglePage e w (url urlData) userId (title urlData) (tags urlData) of
          (Inr result, w1) \<Rightarrow> (Some result, w1)
        | (Inl msg, w1) \<Rightarrow>
            (if retries + 1 \<le> maxRetries opts
             then retry_loop e opts userId urlData (retries + 1)
                    (w1\<lparr>sleeps := sleeps w1 @ [delayBetweenRequests opts * (retries + 1)]\<rparr>)
             else (Some (Failure (url urlData) msg), w1)))
     else (None, w))"
  by pat_completeness auto
termination
  by (relation "measure (\<lambda>(e, opts, userId, urlData, retries, w). nat (maxRetries opts + 1 - retries))")
    auto

declare retry_loop.simps [simp del]

text \<open>
  The retry loop of an item of a batch, whose first call of \<open>archiveSinglePage\<close> had its
  existence query answered with \<open>existing\<close> when the batch started. A later call, after a
  rejection, issues its own query.
\<close>

definition retry_loop_answered ::
  "env \<Rightarrow> options \<Rightarrow> string \<Rightarrow> item \<Rightarrow> archive option \<Rightarrow> world \<Rightarrow> page_result option \<times> world" where
  "retry_loop_answered e opts userId urlData existing w =
    (if 0 \<le> maxRetries opts then
       (case archiveSinglePage_answered e w existing (url urlData) userId (title urlData) (tags urlData) of
          (Inr result, w1) \<Rightarrow> (Some result, w1)
        | (Inl msg, w1) \<Rightarrow>
            (if 1 \<le> maxRetries opts
             then retry_loop e opts userId urlData 1
                    (w1\<lparr>sleeps := sleeps w1 @ [delayBetweenRequests opts * 1]\<rparr>)
             else (Some (Failure (url urlData) msg), w1)))
     else (None, w))"

text \<open>
  The outcome of one promise of a batch, as \<open>Promise.allSettled\<close> reports it. The callback
  given to \<open>batch.map\<close> catches what \<open>archiveSinglePage\<close> throws, so \<open>run_batch\<close>
  produces fulfilled promises only; the branch for a rejected one is kept in
  \<open>record_settled\<close> as the source has it. \<open>run_batch\<close> first takes the answers of the
  existence queries of all items from the store at the start of the batch, and then lets
  each item go on.
\<close>

datatype settled = Fulfilled item "page_result option" | Rejected string

fun settle_batch ::
  "env \<Rightarrow> options \<Rightarrow> string \<Rightarrow> (item \<times> archive option) list \<Rightarrow> world \<Rightarrow> settled list \<times> world" where
  "settle_batch e opts userId [] w = ([], w)"
| "settle_batch e opts userId ((urlData, existing) # rest) w =
    (case retry_loop_answered e opts userId urlData existing w of
       (result, w1) \<Rightarrow>
         (case settle_batch e opts userId rest w1 of
            (ss, w2) \<Rightarrow> (Fulfilled urlData result # ss, w2)))"

definition run_batch :: "env \<Rightarrow> options \<Rightarrow> string \<Rightarrow> item list \<Rightarrow> world \<Rightarrow> settled list \<times> world" where
  "run_batch e opts userId batch w =
    settle_batch e opts userId
      (map (\<lambda>urlData. (urlData, select_single e w userId (url urlData))) batch) w"

definition count_result :: "summary \<Rightarrow> page_result \<Rightarrow> summary" where
  "count_result s result =
    (let s1 = (if success result
               then (if is_skipped result then s\<lparr>skipped := skipped s + 1\<rparr>
                     else s\<lparr>successful := successful s + 1\<rparr>)
               else s\<lparr>failed := failed s + 1\<rparr>)
     in s1\<lparr>results := results s1 @ [result]\<rparr>)"

fun record_settled :: "summary \<Rightarrow> settled list \<Rightarrow> string + summary" where
  "record_settled s [] = Inr s"
| "record_settled s (Fulfilled urlData None # rest) =
     Inl ''TypeError: Cannot read properties of null (reading success)''"
| "record_settled s (Fulfilled urlData (Some result) # rest) = record_settled (count_result s result) rest"
| "record_settled s (Rejected reason # rest) =
     record_settled (s\<lparr>failed := failed s + 1, results := results s @ [Failure ''unknown'' reason]\<rparr>) rest"

text \<open>
  The loop over the batches advances \<open>i\<close> by \<open>batchSize\<close> and does not end when
  \<open>batchSize <= 0\<close> and there is something to process: it is a partial function, \<open>None\<close>
  meaning that the run never returns. A run that returns either rejects (\<open>Inl\<close>, the
  \<open>TypeError\<close> of reading \<open>success\<close> from a \<open>null\<close> result) or resolves to the summary.
\<close>

partial_function (option) batch_loop ::
  "env \<Rightarrow> options \<Rightarrow> string \<Rightarrow> item list \<Rightarrow> int \<times> summary \<times> world \<Rightarrow> ((string + summary) \<times> world) option" where
  "batch_loop e opts userId urlsToProcess st =
    (case st of (i, s, w) \<Rightarrow>
      if i < int (length urlsToProcess) then
        (case run_batch e opts userId (js_slice urlsToProcess i (i + batchSize opts)) w of
           (batchResults, w1) \<Rightarrow>
             (case record_settled s batchResults of
                Inl err \<Rightarrow> Some (Inl err, w1)
              | Inr s1 \<Rightarrow>
                  batch_loop e opts userId urlsToProcess
                    (i + batchSize opts, s1,
                     if i + batchSize opts < int (length urlsToProcess) \<and> 0 < delayBetweenBatches opts
                     then w1\<lparr>sleeps := sleeps w1 @ [delayBetweenBatches opts]\<rparr> else w1)))
      else Some (Inr s, w))"

declare batch_loop.simps [code]

definition processPocketImport ::
  "env \<Rightarrow> world \<Rightarrow> item list \<Rightarrow> string \<Rightarrow> options \<Rightarrow> ((string + summary) \<times> world) option" where
  "processPocketImport e w urls userId opts =
    (case checkForDuplicates e w urls userId of
       (newUrls, dups) \<Rightarrow>
         batch_loop e opts userId newUrls
           (0, \<lparr>total = length urls, successful = 0, failed = 0, results = [],
                duplicates = length dups, skipped = length dups\<rparr>, w))"

text \<open>An ArchiveRecord exists for the pair (user, url).\<close>

definition archived :: "world \<Rightarrow> string \<Rightarrow> string \<Rightarrow> bool" where
  "archived w userId u = (matching w userId u \<noteq> [])"

text \<open>A settled promise that carries a result with \<open>success = true\<close>.\<close>

fun fulfilled_success :: "settled \<Rightarrow> bool" where
  "fulfilled_success (Fulfilled urlData (Some result)) = success result"
| "fulfilled_success (Fulfilled urlData None) = False"
| "fulfilled_success (Rejected reason) = False"

text \<open>No two rows of \<open>archives\<close> have the same user and URL.\<close>

definition unique_pairs :: "world \<Rightarrow> bool" where
  "unique_pairs w = distinct (map (\<lambda>a. (a_user_id a, a_url a)) (archives w))"

section \<open>The shared-embeddings pipeline (\<open>processArchiveWithSharedEmbeddings\<close>)\<close>

text \<open>
  The state is the two tables the pipeline writes, \<open>content_embeddings\<close> and
  \<open>user_content\<close>, and the log of the texts sent to the embedding provider. The
  collaborators are parameters: the SHA-256 digest, the provider (its answer is the
  serialised vector, or nothing when the call fails and \<open>generateEmbedding\<close> returns
  \<open>null\<close>), and the failures of the store calls. Row ids are numbers: \<open>if (contentId)\<close>
  is false when no id was obtained and also for the id \<open>0\<close>. The 50 ms pause after each
  chunk and the \<open>catch\<close> around the whole body (no call of the model throws) are left out.
\<close>

record content_row =
  c_id :: nat
  c_hash :: string
  c_url :: string
  c_title :: string
  c_chunk_index :: nat
  c_content :: string
  c_embedding :: string

record user_content_row =
  uc_user_id :: string
  uc_content_id :: nat
  uc_archive_id :: nat
  uc_tags :: "string list"

record estore =
  content_embeddings :: "content_row list"
  user_content :: "user_content_row list"
  next_content_id :: nat
  embed_calls :: "string list"

record eenv =
  genAI :: bool
  sha256_hex :: "string \<Rightarrow> string"
  embedContent :: "estore \<Rightarrow> string \<Rightarrow> string option"
  lookup_error :: "estore \<Rightarrow> string \<Rightarrow> nat \<Rightarrow> bool"
  rpc_error :: "estore \<Rightarrow> string \<Rightarrow> nat \<Rightarrow> bool"
  link_error :: "estore \<Rightarrow> string \<Rightarrow> nat \<Rightarrow> nat \<Rightarrow> bool"

definition hashContent :: "eenv \<Rightarrow> string \<Rightarrow> string \<Rightarrow> string" where
  "hashContent env u c = sha256_hex env (u @ '':'' @ c)"

definition generateEmbedding :: "eenv \<Rightarrow> estore \<Rightarrow> string \<Rightarrow> string option \<times> estore" where
  "generateEmbedding env st t =
    (if \<not> genAI env then (None, st)
     else (embedContent env st (take 10000 t),
           st\<lparr>embed_calls := embed_calls st @ [take 10000 t]\<rparr>))"

definition rows_for :: "estore \<Rightarrow> string \<Rightarrow> nat \<Rightarrow> content_row list" where
  "rows_for st h i = filter (\<lambda>r. c_hash r = h \<and> c_chunk_index r = i) (content_embeddings st)"

definition lookup_content :: "eenv \<Rightarrow> estore \<Rightarrow> string \<Rightarrow> nat \<Rightarrow> nat option" where
  "lookup_content env st h i =
    (if lookup_error env st h i then None
     else (case rows_for st h i of [r] \<Rightarrow> Some (c_id r) | _ \<Rightarrow> None))"

text \<open>
  Modelled from the spec: the stored procedure \<open>get_or_create_content\<close> is not among the
  sources. The spec describes it as an atomic get-or-create of the ContentChunk row keyed
  by content hash and chunk index: an existing row's id is returned, otherwise the row is
  created.
\<close>

definition get_or_create_content ::
  "estore \<Rightarrow> string \<Rightarrow> string \<Rightarrow> string \<Rightarrow> nat \<Rightarrow> string \<Rightarrow> string \<Rightarrow> nat \<times> estore" where
  "get_or_create_content st h u t i c v =
    (case rows_for st h i of
       r # rs \<Rightarrow> (c_id r, st)
     | [] \<Rightarrow>
        (next_content_id st,
         st\<lparr>content_embeddings := content_embeddings st @
               [\<lparr>c_id = next_content_id st, c_hash = h, c_url = u, c_title = t,
                 c_chunk_index = i, c_content = c, c_embedding = v\<rparr>],
            next_content_id := Suc (next_content_id st)\<rparr>))"

definition same_link :: "archive \<Rightarrow> nat \<Rightarrow> user_content_row \<Rightarrow> bool" where
  "same_link a contentId l =
    (uc_user_id l = a_user_id a \<and> uc_content_id l = contentId \<and> uc_archive_id l = a_id a)"

text \<open>
  The block under \<open>if (contentId)\<close>: the id is pushed and the link is upserted on
  \<open>(user_id, content_id, archive_id)\<close>; an error of the upsert is only logged.
\<close>

definition link_content :: "eenv \<Rightarrow> archive \<Rightarrow> nat list \<times> estore \<Rightarrow> nat \<Rightarrow> nat list \<times> estore" where
  "link_content env a acc contentId =
    (case acc of (contentIds, st) \<Rightarrow>
      if contentId = 0 then (contentIds, st)
      else
      (contentIds @ [contentId],
       if link_error env st (a_user_id a) contentId (a_id a) then st
       else if list_ex (same_link a contentId) (user_content st)
       then st\<lparr>user_content :=
                 map (\<lambda>l. if same_link a contentId l then l\<lparr>uc_tags := a_tags a\<rparr> else l)
                   (user_content st)\<rparr>
       else st\<lparr>user_content := user_content st @
                 [\<lparr>uc_user_id = a_user_id a, uc_content_id = contentId, uc_archive_id = a_id a,
                   uc_tags = a_tags a\<rparr>]\<rparr>))"

definition process_chunk :: "eenv \<Rightarrow> archive \<Rightarrow> nat list \<times> estore \<Rightarrow> chunk \<Rightarrow> nat list \<times> estore" where
  "process_chunk env a acc ch =
    (case acc of (contentIds, st) \<Rightarrow>
      (let contentHash = hashContent env (a_url a) (content ch) in
       case lookup_content env st contentHash (index ch) of
         Some existingId \<Rightarrow> link_content env a (contentIds, st) existingId
       | None \<Rightarrow>
          (case generateEmbedding env st (content ch) of
             (None, st1) \<Rightarrow> (contentIds, st1)
           | (Some embedding, st1) \<Rightarrow>
               if rpc_error env st1 contentHash (index ch) then (contentIds, st1)
               else (case get_or_create_content st1 contentHash (a_url a) (a_title a) (index ch)
                            (content ch) embedding of
                       (newContent, st2) \<Rightarrow> link_content env a (contentIds, st2) newContent))))"

definition fullText :: "archive \<Rightarrow> string" where
  "fullText a = a_title a @ [CHR 0x0A, CHR 0x0A] @ a_description a @ [CHR 0x0A, CHR 0x0A] @ a_text a"

definition processArchiveWithSharedEmbeddings ::
  "eenv \<Rightarrow> estore \<Rightarrow> archive \<Rightarrow> (nat list option \<times> estore) option" where
  "processArchiveWithSharedEmbeddings env st a =
    (if \<not> genAI env then Some (None, st)
     else (case chunkText (fullText a) 1500 300 of
             None \<Rightarrow> None
           | Some chunks \<Rightarrow>
               (case foldl (process_chunk env a) ([], st) chunks of
                  (contentIds, st') \<Rightarrow> Some (Some contentIds, st'))))"

text \<open>No two rows of \<open>content_embeddings\<close> share a content hash and chunk index.\<close>

definition unique_content :: "estore \<Rightarrow> bool" where
  "unique_content st = distinct (map (\<lambda>r. (c_hash r, c_chunk_index r)) (content_embeddings st))"

text \<open>The content store holds exactly one row for the chunk's hash and index, with id \<open>j\<close>.\<close>

definition stored_as :: "eenv \<Rightarrow> string \<Rightarrow> estore \<Rightarrow> chunk \<Rightarrow> nat \<Rightarrow> bool" where
  "stored_as env u st ch j =
    (\<exists>r. rows_for st (hashContent env u (content ch)) (index ch) = [r] \<and> c_id r = j)"

text \<open>The ids that the content store holds and the next one it gives out are truthy.\<close>

definition truthy_ids :: "estore \<Rightarrow> bool" where
  "truthy_ids st = (next_content_id st \<noteq> 0 \<and> list_all (\<lambda>r. c_id r \<noteq> 0) (content_embeddings st))"

text \<open>\<open>user_content\<close> links the content id \<open>j\<close> to the archive and its user.\<close>

definition linked :: "estore \<Rightarrow> archive \<Rightarrow> nat \<Rightarrow> bool" where
  "linked st a j = list_ex (same_link a j) (user_content st)"

section \<open>The search endpoint (\<open>POST /api/search\<close>)\<close>

text \<open>
  \<open>groupedResults\<close> is a JavaScript object used as a dictionary: an association list in
  insertion order, whose \<open>Object.values\<close> lists the properties with an array-index key
  (the canonical decimal form of an integer below \<open>2^32 - 1\<close>) first, in ascending
  numeric order, and then the other keys in insertion order. The object is created with
  \<open>{}\<close>, so reading \<open>groupedResults[k]\<close> for a key that the object does not own answers
  the property of that name of \<open>Object.prototype\<close> when there is one: a function or
  an object, which is truthy and has no \<open>matching_chunks\<close>. \<open>Array.prototype.sort\<close> is
  stable: \<open>js_sort\<close> is the stable insertion sort for a comparison function. Scores are
  rational numbers, \<open>0\<close> standing for a missing (falsy) score. \<open>extractSnippet\<close> and
  \<open>highlightTerms\<close> produce the texts shown and have no part in grouping or order; they are
  parameters, and \<open>highlightTerms\<close> may fail, as \<open>new RegExp\<close> does on a query term that is
  not a regular expression. The limit is the value of \<open>parseInt(limit)\<close>, \<open>None\<close> for \<open>NaN\<close>.
\<close>

record hit =
  h_archive_id :: string
  h_id :: string
  h_title :: string
  h_description :: string
  h_url :: string
  h_archived_text :: string
  h_tags :: "string list"
  h_screenshot_url :: string
  h_created_at :: string
  h_relevance_score :: rat
  h_similarity :: rat
  h_match_type :: string
  h_chunk_id :: string
  h_content :: string
  h_chunk_content :: string

record archive_columns =
  f_id :: string
  f_url :: string
  f_title :: string
  f_description :: string
  f_archived_text :: string
  f_tags :: "string list"
  f_screenshot_url :: string
  f_created_at :: string

record matching_chunk =
  mc_content :: string
  mc_similarity :: rat

record group =
  g_id :: string
  g_title :: string
  g_description :: string
  g_url :: string
  g_tags :: "string list"
  g_screenshot_url :: string
  g_created_at :: string
  relevance_score :: rat
  snippet :: string
  matching_chunks :: "matching_chunk list"
  match_type :: string

record senv =
  fetch_archive :: "string \<Rightarrow> archive_columns option"
  extractSnippet :: "string \<Rightarrow> string \<Rightarrow> nat \<Rightarrow> string"
  highlightTerms :: "string \<Rightarrow> string \<Rightarrow> string + string"

definition is_digit :: "char \<Rightarrow> bool" where
  "is_digit c = (48 \<le> (of_char c :: nat) \<and> (of_char c :: nat) \<le> 57)"

definition digits_value :: "string \<Rightarrow> int" where
  "digits_value k = foldl (\<lambda>n c. 10 * n + ((of_char c :: int) - 48)) 0 k"

definition is_array_index :: "string \<Rightarrow> bool" where
  "is_array_index k =
    (k \<noteq> [] \<and> list_all is_digit k \<and> (k = ''0'' \<or> take 1 k \<noteq> ''0'') \<and> digits_value k < 4294967295)"

definition object_values :: "(string \<times> 'a) list \<Rightarrow> 'a list" where
  "object_values obj =
    map snd (sort_key (\<lambda>p. digits_value (fst p)) (filter (\<lambda>p. is_array_index (fst p)) obj)) @
    map snd (filter (\<lambda>p. \<not> is_array_index (fst p)) obj)"

fun insert_cmp :: "('a \<Rightarrow> 'a \<Rightarrow> rat) \<Rightarrow> 'a \<Rightarrow> 'a list \<Rightarrow> 'a list" where
  "insert_cmp cmp x [] = [x]"
| "insert_cmp cmp x (y # ys) = (if cmp x y \<le> 0 then x # y # ys else y # insert_cmp cmp x ys)"

definition js_sort :: "('a \<Rightarrow> 'a \<Rightarrow> rat) \<Rightarrow> 'a list \<Rightarrow> 'a list" where
  "js_sort cmp xs = foldr (insert_cmp cmp) xs []"

definition archiveId_of :: "hit \<Rightarrow> string" where
  "archiveId_of result = (if h_archive_id result \<noteq> [] then h_archive_id result else h_id result)"

definition merge_columns :: "hit \<Rightarrow> archive_columns \<Rightarrow> hit" where
  "merge_columns result d =
    result\<lparr>h_id := f_id d, h_url := f_url d, h_title := f_title d, h_description := f_description d,
           h_archived_text := f_archived_text d, h_tags := f_tags d,
           h_screenshot_url := f_screenshot_url d, h_created_at := f_created_at d\<rparr>"

definition new_group :: "senv \<Rightarrow> string \<Rightarrow> hit \<Rightarrow> string + group" where
  "new_group env query result =
    (let archiveId = archiveId_of result;
         archiveData =
           (if h_archived_text result = [] then
              (case fetch_archive env archiveId of Some d \<Rightarrow> merge_columns result d | None \<Rightarrow> result)
            else result);
         snip = extractSnippet env
                  (if h_archived_text archiveData \<noteq> [] then h_archived_text archiveData
                   else h_description archiveData) query 300
     in case highlightTerms env snip query of
          Inl err \<Rightarrow> Inl err
        | Inr highlighted \<Rightarrow>
            Inr \<lparr>g_id = archiveId,
                 g_title = (if h_title archiveData \<noteq> [] then h_title archiveData else ''Untitled''),
                 g_description = h_description archiveData,
                 g_url = h_url archiveData,
                 g_tags = h_tags archiveData,
                 g_screenshot_url = h_screenshot_url archiveData,
                 g_created_at = h_created_at archiveData,
                 relevance_score =
                   (if h_relevance_score result \<noteq> 0 then h_relevance_score result
                    else h_similarity result),
                 snippet = highlighted,
                 matching_chunks = [],
                 match_type =
                   (if h_match_type result \<noteq> [] then h_match_type result
                    else if h_similarity result \<noteq> 0 then ''semantic'' else ''text'')\<rparr>)"

definition add_chunk :: "senv \<Rightarrow> string \<Rightarrow> hit \<Rightarrow> group \<Rightarrow> string + group" where
  "add_chunk env query result g =
    (if h_chunk_id result \<noteq> [] \<or> h_content result \<noteq> [] then
       (let chunkContent = (if h_content result \<noteq> [] then h_content result else h_chunk_content result)
        in if chunkContent \<noteq> [] then
             (case highlightTerms env (js_slice chunkContent 0 200) query of
                Inl err \<Rightarrow> Inl err
              | Inr highlighted \<Rightarrow>
                  Inr (g\<lparr>matching_chunks := matching_chunks g @
                           [\<lparr>mc_content = highlighted, mc_similarity = h_similarity result\<rparr>]\<rparr>))
           else Inr g)
     else Inr g)"

definition object_prototype_keys :: "string list" where
  "object_prototype_keys =
    [''constructor'', ''__defineGetter__'', ''__defineSetter__'', ''hasOwnProperty'',
     ''__lookupGetter__'', ''__lookupSetter__'', ''isPrototypeOf'', ''propertyIsEnumerable'',
     ''toString'', ''valueOf'', ''__proto__'', ''toLocaleString'']"

text \<open>
  One pass of the loop over the results. When \<open>groupedResults[archiveId]\<close> is an inherited
  property, no group is created, and a result that carries a chunk throws on
  \<open>groupedResults[archiveId].matching_chunks.push\<close>, before the arguments are evaluated.
\<close>

definition group_hit :: "senv \<Rightarrow> string \<Rightarrow> (string \<times> group) list \<Rightarrow> hit \<Rightarrow> string + (string \<times> group) list" where
  "group_hit env query groupedResults result =
    (let archiveId = archiveId_of result in
     case map_of groupedResults archiveId of
       Some g \<Rightarrow>
         (case add_chunk env query result g of
            Inl err \<Rightarrow> Inl err
          | Inr g' \<Rightarrow> Inr (map (\<lambda>p. if fst p = archiveId then (archiveId, g') else p) groupedResults))
     | None \<Rightarrow>
         if archiveId \<in> set object_prototype_keys then
           (if (h_chunk_id result \<noteq> [] \<or> h_content result \<noteq> []) \<and>
               (if h_content result \<noteq> [] then h_content result else h_chunk_content result) \<noteq> []
            then Inl ''TypeError: Cannot read properties of undefined (reading push)''
            else Inr groupedResults)
         else
         (case new_group env query result of
            Inl err \<Rightarrow> Inl err
          | Inr g \<Rightarrow>
              (case add_chunk env query result g of
                 Inl err \<Rightarrow> Inl err
               | Inr g' \<Rightarrow> Inr (groupedResults @ [(archiveId, g')]))))"

fun group_all :: "senv \<Rightarrow> string \<Rightarrow> (string \<times> group) list \<Rightarrow> hit list \<Rightarrow> string + (string \<times> group) list" where
  "group_all env query groupedResults [] = Inr groupedResults"
| "group_all env query groupedResults (result # rest) =
    (case group_hit env query groupedResults result of
       Inl err \<Rightarrow> Inl err
     | Inr groupedResults' \<Rightarrow> group_all env query groupedResults' rest)"

definition by_relevance :: "group \<Rightarrow> group \<Rightarrow> rat" where
  "by_relevance a b = relevance_score b - relevance_score a"

definition limit_value :: "int option \<Rightarrow> int" where
  "limit_value limit = (case limit of None \<Rightarrow> 0 | Some n \<Rightarrow> n)"

definition search :: "senv \<Rightarrow> string \<Rightarrow> string \<Rightarrow> hit list \<Rightarrow> int option \<Rightarrow> string + group list" where
  "search env query userId hits limit =
    (if query = [] \<or> userId = [] then Inl ''Query and userId are required''
     else (case group_all env query [] hits of
             Inl err \<Rightarrow> Inl err
           | Inr groupedResults \<Rightarrow>
               Inr (js_slice (js_sort by_relevance (object_values groupedResults)) 0 (limit_value limit))))"

text \<open>
  The score that a group is given when it is created:
  \<open>result.relevance_score || result.similarity || 0\<close>.
\<close>

definition hit_score :: "hit \<Rightarrow> rat" where
  "hit_score result =
    (if h_relevance_score result \<noteq> 0 then h_relevance_score result else h_similarity result)"

text \<open>
  The results that are the first of their archive, in the order of the collaborator's
  sequence, leaving out the archives already seen.
\<close>

fun first_hits :: "string list \<Rightarrow> hit list \<Rightarrow> hit list" where
  "first_hits seen [] = []"
| "first_hits seen (h # hs) =
    (if archiveId_of h \<in> set seen then first_hits seen hs
     else h # first_hits (seen @ [archiveId_of h]) hs)"

text \<open>The groups in the order in which the loop over the results created them.\<close>

definition groups_of :: "senv \<Rightarrow> string \<Rightarrow> hit list \<Rightarrow> group list" where
  "groups_of env query hits =
    (case group_all env query [] hits of Inl err \<Rightarrow> [] | Inr groupedResults \<Rightarrow> map snd groupedResults)"

text \<open>An archive id that is neither an integer-like key nor the name of an inherited property.\<close>

definition plain_key :: "string \<Rightarrow> bool" where
  "plain_key k = (\<not> is_array_index k \<and> k \<notin> set object_prototype_keys)"

text \<open>The key of an entry of \<open>groupedResults\<close> with the id and the score of its group.\<close>

definition id_score :: "string \<times> group \<Rightarrow> string \<times> string \<times> rat" where
  "id_score p = (fst p, g_id (snd p), relevance_score (snd p))"

section \<open>Concrete collaborators and inputs for the examples\<close>

definition page_ok :: extracted where
  "page_ok = \<lparr>x_title = ''T'', x_description = ''D'', x_html = ''H'', x_text = ''X'',
     x_markdown = ''M'', x_extractionMethod = ''firecrawl'', x_wordCount = 1, x_readingTime = 1\<rparr>"

definition env_ok :: env where
  "env_ok = \<lparr>extractWithFirecrawl = (\<lambda>w u. Some page_ok),
     basicFetch = (\<lambda>w t u. Inl ''HTTP 500''),
     select_error = (\<lambda>w userId u. False),
     insert_error = (\<lambda>w userId u. None),
     in_query_fault = (\<lambda>w userId batch. NoFault)\<rparr>"

definition env_extraction_fails :: env where
  "env_extraction_fails = env_ok\<lparr>extractWithFirecrawl := (\<lambda>w u. None)\<rparr>"

text \<open>An extractor that fails on the first attempt of a session and succeeds afterwards.\<close>

definition env_flaky :: env where
  "env_flaky = env_ok\<lparr>extractWithFirecrawl := (\<lambda>w u. if extractions w = [] then None else Some page_ok)\<rparr>"

definition env_insert_fails :: env where
  "env_insert_fails = env_ok\<lparr>insert_error := (\<lambda>w userId u. Some ''insert failed'')\<rparr>"

definition env_select_fails :: env where
  "env_select_fails = env_ok\<lparr>select_error := (\<lambda>w userId u. True)\<rparr>"

definition env_duplicate_check_throws :: env where
  "env_duplicate_check_throws = env_ok\<lparr>in_query_fault := (\<lambda>w userId batch. Throws)\<rparr>"

definition env_checks_fail :: env where
  "env_checks_fail = env_ok\<lparr>select_error := (\<lambda>w userId u. True),
     in_query_fault := (\<lambda>w userId batch. ErrorReply)\<rparr>"

definition row_a :: archive where
  "row_a = \<lparr>a_id = 0, a_user_id = ''u'', a_url = ''http://a'', a_title = ''A'', a_description = [],
     a_html = [], a_text = [], a_markdown = None, a_extraction_method = ''firecrawl'',
     a_word_count = 0, a_reading_time = 0, a_tags = []\<rparr>"

definition world_a :: world where
  "world_a = \<lparr>archives = [row_a], next_id = 1, extractions = [], sleeps = []\<rparr>"

definition world_empty :: world where
  "world_empty = \<lparr>archives = [], next_id = 0, extractions = [], sleeps = []\<rparr>"

definition opts_default :: options where
  "opts_default = \<lparr>batchSize = 10, delayBetweenBatches = 500, delayBetweenRequests = 200, maxRetries = 2\<rparr>"

definition item_a :: item where
  "item_a = \<lparr>url = ''http://a'', title = ''A'', tags = []\<rparr>"

definition item_b :: item where
  "item_b = \<lparr>url = ''http://b'', title = ''B'', tags = []\<rparr>"

definition item_c :: item where
  "item_c = \<lparr>url = ''http://c'', title = ''C'', tags = []\<rparr>"

definition senv_plain :: senv where
  "senv_plain = \<lparr>fetch_archive = (\<lambda>i. None), extractSnippet = (\<lambda>t q n. take n t),
     highlightTerms = (\<lambda>t q. Inr t)\<rparr>"

definition hit_of :: "string \<Rightarrow> rat \<Rightarrow> hit" where
  "hit_of i score =
    \<lparr>h_archive_id = [], h_id = i, h_title = ''Title'', h_description = [], h_url = ''http://x'',
     h_archived_text = ''text'', h_tags = [], h_screenshot_url = [], h_created_at = [],
     h_relevance_score = score, h_similarity = 0, h_match_type = [], h_chunk_id = [],
     h_content = [], h_chunk_content = []\<rparr>"

definition group_of :: "string \<Rightarrow> rat \<Rightarrow> group" where
  "group_of i score =
    \<lparr>g_id = i, g_title = ''Title'', g_description = [], g_url = ''http://x'', g_tags = [],
     g_screenshot_url = [], g_created_at = [], relevance_score = score, snippet = ''text'',
     matching_chunks = [], match_type = ''text''\<rparr>"

definition eenv_ok :: eenv where
  "eenv_ok = \<lparr>genAI = True, sha256_hex = (\<lambda>s. s), embedContent = (\<lambda>st t. Some ''[0.1]''),
     lookup_error = (\<lambda>st h i. False), rpc_error = (\<lambda>st h i. False),
     link_error = (\<lambda>st u c a. False)\<rparr>"

definition eenv_unavailable :: eenv where
  "eenv_unavailable = eenv_ok\<lparr>embedContent := (\<lambda>st t. None)\<rparr>"

definition eenv_rpc_fails :: eenv where
  "eenv_rpc_fails = eenv_ok\<lparr>rpc_error := (\<lambda>st h i. True)\<rparr>"

definition eenv_lookup_fails :: eenv where
  "eenv_lookup_fails = eenv_ok\<lparr>lookup_error := (\<lambda>st h i. True)\<rparr>"

definition estore_empty :: estore where
  "estore_empty = \<lparr>content_embeddings = [], user_content = [], next_content_id = 1, embed_calls = []\<rparr>"

definition archive_of :: "nat \<Rightarrow> string \<Rightarrow> archive" where
  "archive_of i u =
    \<lparr>a_id = i, a_user_id = u, a_url = ''http://x'', a_title = ''T'', a_description = ''D'',
     a_html = [], a_text = ''Hello world.'', a_markdown = None, a_extraction_method = ''firecrawl'',
     a_word_count = 2, a_reading_time = 1, a_tags = []\<rparr>"

definition chunk_x :: chunk where
  "chunk_x = \<lparr>content = ''T'' @ [CHR 0x0A, CHR 0x0A] @ ''D'' @ [CHR 0x0A, CHR 0x0A] @ ''Hello world.'', index = 0\<rparr>"

definition row_x :: content_row where
  "row_x = \<lparr>c_id = 1, c_hash = ''http://x:'' @ content chunk_x, c_url = ''http://x'', c_title = ''T'',
     c_chunk_index = 0, c_content = content chunk_x, c_embedding = ''[0.1]''\<rparr>"

definition estore_alice :: estore where
  "estore_alice =
    \<lparr>content_embeddings = [row_x],
     user_content = [\<lparr>uc_user_id = ''alice'', uc_content_id = 1, uc_archive_id = 7, uc_tags = []\<rparr>],
     next_content_id = 2, embed_calls = [content chunk_x]\<rparr>"

text \<open>A content store with two rows for the same hash and index, and one whose row has the id 0.\<close>

definition estore_twin :: estore where
  "estore_twin = estore_alice\<lparr>content_embeddings := [row_x, row_x\<lparr>c_id := 2\<rparr>], next_content_id := 3\<rparr>"

definition estore_zero_id :: estore where
  "estore_zero_id = estore_alice\<lparr>content_embeddings := [row_x\<lparr>c_id := 0\<rparr>], user_content := []\<rparr>"

section \<open>Properties of the chunker\<close>

subsection \<open>Indices\<close>

lemma chunk_step_indices:
  assumes "map index (snd st) = [0..<length (snd st)]"
  shows "map index (snd (chunk_step tx chunkSize overlap st)) =
         [0..<length (snd (chunk_step tx chunkSize overlap st))]"
  using assms by (simp add: chunk_step_def Let_def)

lemma chunk_loop_indices:
  assumes "chunk_loop tx cs ovl st = Some res"
  shows "map index (snd st) = [0..<length (snd st)] \<longrightarrow> map index res = [0..<length res]"
proof (rule chunk_loop.raw_induct
    [where P = "\<lambda>t c ov s r. map index (snd s) = [0..<length (snd s)] \<longrightarrow> map index r = [0..<length r]",
      OF _ assms])
  fix loop t c ov s r
  assume IH: "\<And>t c ov s r. loop t c ov s = Some r \<Longrightarrow>
      map index (snd s) = [0..<length (snd s)] \<longrightarrow> map index r = [0..<length r]"
    and eq: "(if fst s < int (length t) then loop t c ov (chunk_step t c ov s) else Some (snd s)) = Some r"
  show "map index (snd s) = [0..<length (snd s)] \<longrightarrow> map index r = [0..<length r]"
  proof (cases "fst s < int (length t)")
    case True
    with eq have "loop t c ov (chunk_step t c ov s) = Some r"
      by simp
    from IH [OF this] show ?thesis
      using chunk_step_indices by blast
  next
    case False
    with eq have "r = snd s" by simp
    then show ?thesis by simp
  qed
qed

lemma chunkText_tail_repeats:
  "chunkText ''abcdefghij'' 1500 2 =
     Some [\<lparr>content = ''abcdefghij'', index = 0\<rparr>, \<lparr>content = ''ij'', index = 1\<rparr>,
           \<lparr>content = ''ij'', index = 2\<rparr>, \<lparr>content = ''ij'', index = 3\<rparr>]"
  by code_simp

text \<open>
  Claim C6. Whatever the text and the chunk parameters, the chunks that \<open>chunkText\<close>
  returns carry the indices \<open>0, 1, ..., n - 1\<close> in emission order: each chunk is pushed with
  \<open>index = chunks.length\<close>.
\<close>

theorem chunkText_indices_contiguous:
  "chunkText tx chunkSize overlap = Some chunks \<Longrightarrow> map index chunks = [0..<length chunks]"
  using chunk_loop_indices [of tx chunkSize overlap "(0, [])" chunks]
  by (simp add: chunkText_def)

theorem chunkText_indices_contiguous_witness:
  "chunkText ''abcdefghij'' 1500 2 =
     Some [\<lparr>content = ''abcdefghij'', index = 0\<rparr>, \<lparr>content = ''ij'', index = 1\<rparr>,
           \<lparr>content = ''ij'', index = 2\<rparr>, \<lparr>content = ''ij'', index = 3\<rparr>]
   \<and> map index [\<lparr>content = ''abcdefghij'', index = 0\<rparr>, \<lparr>content = ''ij'', index = 1\<rparr>,
                 \<lparr>content = ''ij'', index = 2\<rparr>, \<lparr>content = ''ij'', index = 3\<rparr>]
       = [0..<length [\<lparr>content = ''abcdefghij'', index = 0\<rparr>, \<lparr>content = ''ij'', index = 1\<rparr>,
                      \<lparr>content = ''ij'', index = 2\<rparr>, \<lparr>content = ''ij'', index = 3\<rparr>]]"
proof (intro conjI)
  show "chunkText ''abcdefghij'' 1500 2 =
     Some [\<lparr>content = ''abcdefghij'', index = 0\<rparr>, \<lparr>content = ''ij'', index = 1\<rparr>,
           \<lparr>content = ''ij'', index = 2\<rparr>, \<lparr>content = ''ij'', index = 3\<rparr>]"
    by (rule chunkText_tail_repeats)
  show "map index [\<lparr>content = ''abcdefghij'', index = 0\<rparr>, \<lparr>content = ''ij'', index = 1\<rparr>,
                 \<lparr>content = ''ij'', index = 2\<rparr>, \<lparr>content = ''ij'', index = 3\<rparr>]
       = [0..<length [\<lparr>content = ''abcdefghij'', index = 0\<rparr>, \<lparr>content = ''ij'', index = 1\<rparr>,
                      \<lparr>content = ''ij'', index = 2\<rparr>, \<lparr>content = ''ij'', index = 3\<rparr>]]"
    by (rule chunkText_indices_contiguous [OF chunkText_tail_repeats])
qed

subsection \<open>Progress of the position\<close>

text \<open>
  The guard \<open>position <= chunks.length * overlap\<close> compares the position with the number
  of chunks pushed so far. A window that trims to the empty string pushes nothing, so
  on blank text the bound stays where it was, the guard fails, and the position is set
  to \<open>endPosition - overlap\<close> again and again. A state that the loop body maps to itself
  while the loop condition holds is never left.
\<close>

lemma chunk_loop_not_stuck:
  assumes "chunk_loop tx cs ovl st = Some res"
  shows "\<not> (chunk_step tx cs ovl st = st \<and> fst st < int (length tx))"
proof (rule chunk_loop.raw_induct
    [where P = "\<lambda>t c ov s r. \<not> (chunk_step t c ov s = s \<and> fst s < int (length t))", OF _ assms])
  fix loop t c ov s r
  assume IH: "\<And>t c ov s r. loop t c ov s = Some r \<Longrightarrow>
      \<not> (chunk_step t c ov s = s \<and> fst s < int (length t))"
    and eq: "(if fst s < int (length t) then loop t c ov (chunk_step t c ov s) else Some (snd s)) = Some r"
  show "\<not> (chunk_step t c ov s = s \<and> fst s < int (length t))"
  proof
    assume stuck: "chunk_step t c ov s = s \<and> fst s < int (length t)"
    with eq have "loop t c ov s = Some r" by simp
    from IH [OF this] stuck show False by blast
  qed
qed

lemma chunk_loop_stuck:
  assumes "chunk_step tx chunkSize overlap st = st" and "fst st < int (length tx)"
  shows "chunk_loop tx chunkSize overlap st = None"
proof (cases "chunk_loop tx chunkSize overlap st")
  case None
  then show ?thesis .
next
  case (Some r)
  from chunk_loop_not_stuck [OF this] assms show ?thesis by blast
qed

lemma spaces_first_step: "chunk_step (replicate 100 (CHR '' '')) 1 1 (0, []) = (1, [])"
  by code_simp

lemma spaces_second_step: "chunk_step (replicate 100 (CHR '' '')) 1 1 (1, []) = (1, [])"
  by code_simp

lemma padded_first_step:
  "chunk_step (replicate 10 (CHR ''a'') @ replicate 4 (CHR '' '')) 15 3 (0, []) =
     (11, [\<lparr>content = replicate 10 (CHR ''a''), index = 0\<rparr>])"
  by code_simp

lemma padded_second_step:
  "chunk_step (replicate 10 (CHR ''a'') @ replicate 4 (CHR '' '')) 15 3
       (11, [\<lparr>content = replicate 10 (CHR ''a''), index = 0\<rparr>]) =
     (11, [\<lparr>content = replicate 10 (CHR ''a''), index = 0\<rparr>])"
  by code_simp

lemma chunkText_padded_never_returns:
  "chunkText (replicate 10 (CHR ''a'') @ replicate 4 (CHR '' '')) 15 3 = None"
proof -
  have "chunk_loop (replicate 10 (CHR ''a'') @ replicate 4 (CHR '' '')) 15 3
          (11, [\<lparr>content = replicate 10 (CHR ''a''), index = 0\<rparr>]) = None"
    by (rule chunk_loop_stuck) (simp_all add: padded_second_step)
  then show ?thesis
    unfolding chunkText_def
    by (subst chunk_loop.simps) (simp add: padded_first_step)
qed

text \<open>
  Claim C5 says that \<open>chunkText\<close> terminates on every text for all chunk parameters,
  \<open>chunkSize = 1\<close> and \<open>overlap = 1\<close> on a 100-character string included, because the
  position strictly increases on every iteration. On the 100-character string of spaces
  with \<open>chunkSize = 1\<close> and \<open>overlap = 1\<close> the first iteration moves the position from 0
  to 1, every later iteration leaves the state \<open>(1, [])\<close> as it is, and the call never returns.
  The same happens with ordinary parameters on a text that ends in white space
  (\<open>chunkText_padded_never_returns\<close>).
\<close>

theorem chunkText_blank_never_returns:
  "chunk_step (replicate 100 (CHR '' '')) 1 1 (1, []) = (1, []) \<and>
   chunkText (replicate 100 (CHR '' '')) 1 1 = None"
proof -
  have "chunk_loop (replicate 100 (CHR '' '')) 1 1 (1, []) = None"
    by (rule chunk_loop_stuck) (simp_all add: spaces_second_step)
  then have "chunkText (replicate 100 (CHR '' '')) 1 1 = None"
    unfolding chunkText_def
    by (subst chunk_loop.simps) (simp add: spaces_first_step)
  then show ?thesis
    by (simp add: spaces_second_step)
qed

subsection \<open>Text shorter than the window\<close>

lemma trim_nonempty: "trim s \<noteq> [] \<Longrightarrow> s \<noteq> []"
  by (auto simp: trim_def)

lemma js_slice_whole: "js_slice s 0 (int (length s)) = s"
  by (simp add: js_slice_def)

lemma endPosition_of_short:
  "int (length tx) \<le> position + chunkSize \<Longrightarrow> endPosition_of tx chunkSize position = int (length tx)"
  by (simp add: endPosition_of_def Let_def)

text \<open>
  When the first window reaches the end of the text, the position is set back to
  \<open>length - overlap\<close>, and the loop ends only if that is at most \<open>overlap\<close> (the clamp
  then moves the position to the end) or if \<open>overlap <= 0\<close>. In those cases a text with
  a character other than white space gives one chunk, the trimmed text.
\<close>

lemma chunkText_single_window:
  assumes "trim tx \<noteq> []" and "int (length tx) < chunkSize"
    and "int (length tx) \<le> 2 * overlap \<or> overlap \<le> 0"
  shows "chunkText tx chunkSize overlap = Some [\<lparr>content = trim tx, index = 0\<rparr>]"
proof -
  let ?c = "\<lparr>content = trim tx, index = 0\<rparr>"
  have ne: "tx \<noteq> []" using assms(1) by (rule trim_nonempty)
  have e: "endPosition_of tx chunkSize 0 = int (length tx)"
    using assms(2) by (simp add: endPosition_of_short)
  have "snd (chunk_step tx chunkSize overlap (0, [])) = [?c]"
    using assms(1) by (simp add: chunk_step_def Let_def e js_slice_whole)
  moreover have "int (length tx) \<le> fst (chunk_step tx chunkSize overlap (0, []))"
    using assms(1,3) ne by (auto simp add: chunk_step_def Let_def e js_slice_whole)
  ultimately obtain p where st: "chunk_step tx chunkSize overlap (0, []) = (p, [?c])"
    and p: "int (length tx) \<le> p"
    by (metis prod.collapse)
  have "chunk_loop tx chunkSize overlap (p, [?c]) = Some [?c]"
    using p by (subst chunk_loop.simps) simp
  then show ?thesis
    unfolding chunkText_def using ne
    by (subst chunk_loop.simps) (simp add: st)
qed

lemma chunkText_single_window_example:
  "chunkText ''abc'' 1500 300 = Some [\<lparr>content = ''abc'', index = 0\<rparr>]"
proof -
  have t: "trim ''abc'' = ''abc''" by code_simp
  have "chunkText ''abc'' 1500 300 = Some [\<lparr>content = trim ''abc'', index = 0\<rparr>]"
    by (rule chunkText_single_window) (simp_all add: t)
  then show ?thesis by (simp add: t)
qed

text \<open>
  A window that trims to the empty string is dropped by \<open>if (chunkContent)\<close>, so a text
  of white space only gives no chunk.
\<close>

lemma chunkText_blank_short: "chunkText '' '' 1500 300 = Some []"
  by code_simp

text \<open>
  Claim C7 says that a non-empty text shorter than \<open>chunkSize\<close> gives exactly one chunk.
  With the parameters of the pipeline (1500 and 300) a text of 700 letters is shorter than
  the window, and its first window is the whole text. The position is then set back to
  \<open>700 - 300 = 400\<close>, which is more than \<open>chunks.length * overlap = 300\<close>, so the clamp
  does not fire and the loop runs again: the last 300 characters are pushed a second time
  as chunk 1. The text comes out as two chunks.
\<close>

theorem chunkText_short_text_two_chunks:
  "replicate 700 (CHR ''a'') \<noteq> [] \<and> int (length (replicate 700 (CHR ''a''))) < 1500 \<and>
   chunkText (replicate 700 (CHR ''a'')) 1500 300 =
     Some [\<lparr>content = replicate 700 (CHR ''a''), index = 0\<rparr>,
           \<lparr>content = replicate 300 (CHR ''a''), index = 1\<rparr>]"
  by code_simp

section \<open>Termination of the first module's chunker\<close>

text \<open>
  In \<open>embeddings.js\<close> every iteration pushes a chunk. While fewer chunks than characters
  have been pushed the number of chunks grows; from then on \<open>chunks.length * overlap\<close>
  exceeds every position, the guard holds and the position moves to \<open>endPosition\<close>
  or beyond. So this loop ends for every text when \<open>chunkSize >= 1\<close> and \<open>overlap >= 0\<close>,
  on the blank 100-character string too.
\<close>

lemma lastIndexFrom_le: "lastIndexFrom s pat k \<le> int k"
  by (induction k) auto

lemma lastIndexOf_less:
  assumes "pat \<noteq> []"
  shows "lastIndexOf s pat k < int (length s)"
proof (cases "min (max k 0) (int (length s) - int (length pat)) < 0")
  case True
  then have "lastIndexOf s pat k = - 1" by (simp only: lastIndexOf_def Let_def if_True)
  then show ?thesis by simp
next
  case False
  let ?start = "min (max k 0) (int (length s) - int (length pat))"
  from False have "lastIndexOf s pat k = lastIndexFrom s pat (nat ?start)"
    by (simp only: lastIndexOf_def Let_def if_False)
  also have "\<dots> \<le> int (nat ?start)" by (rule lastIndexFrom_le)
  also have "\<dots> = ?start"
  proof -
    from False have "0 \<le> ?start" by (simp only: not_less)
    then show ?thesis by (rule nat_0_le)
  qed
  also have "\<dots> \<le> int (length s) - int (length pat)" by (rule min.cobounded2)
  also have "\<dots> < int (length s)" using assms by simp
  finally show ?thesis .
qed

lemma endPosition_openai_bounds:
  assumes "position < int (length tx)" and "1 \<le> chunkSize"
  shows "position < endPosition_openai tx chunkSize position \<and>
         endPosition_openai tx chunkSize position \<le> int (length tx)"
proof -
  have a: "lastIndexOf tx ''.'' k < int (length tx)" for k by (rule lastIndexOf_less) simp
  have b: "lastIndexOf tx [CHR 0x0A] k < int (length tx)" for k by (rule lastIndexOf_less) simp
  let ?e0 = "min (position + chunkSize) (int (length tx))"
  let ?bp = "max (lastIndexOf tx ''.'' ?e0) (lastIndexOf tx [CHR 0x0A] ?e0)"
  have bp: "?bp < int (length tx)" using a [of ?e0] b [of ?e0] by simp
  show ?thesis
  proof (cases "?e0 < int (length tx) \<and> 2 * ?bp > 2 * position + chunkSize")
    case True
    then have "endPosition_openai tx chunkSize position = ?bp + 1"
      by (simp add: endPosition_openai_def Let_def)
    with True bp assms show ?thesis by linarith
  next
    case False
    then have "endPosition_openai tx chunkSize position = ?e0"
      by (auto simp add: endPosition_openai_def Let_def)
    with assms show ?thesis by simp
  qed
qed

lemma chunk_step_openai_progress:
  assumes lt: "fst st < int (length tx)" and p0: "0 \<le> fst st"
    and c: "1 \<le> chunkSize" and o: "0 \<le> overlap"
  shows "length (snd (chunk_step_openai tx chunkSize overlap st)) = Suc (length (snd st)) \<and>
         0 \<le> fst (chunk_step_openai tx chunkSize overlap st) \<and>
         (length tx \<le> length (snd st) \<longrightarrow> fst st < fst (chunk_step_openai tx chunkSize overlap st))"
proof -
  let ?e = "endPosition_openai tx chunkSize (fst st)"
  let ?k = "int (Suc (length (snd st)))"
  from endPosition_openai_bounds [OF lt c] have e: "fst st < ?e" "?e \<le> int (length tx)" by auto
  have fst': "fst (chunk_step_openai tx chunkSize overlap st) =
      (if ?e - overlap \<le> ?k * overlap then max ?e (?e - overlap + 1) else ?e - overlap)"
    by (simp add: chunk_step_openai_def Let_def)
  have k0: "0 \<le> ?k * overlap" using o by simp
  have nonneg: "0 \<le> fst (chunk_step_openai tx chunkSize overlap st)"
    unfolding fst' using e p0 k0 by auto
  have grows: "fst st < fst (chunk_step_openai tx chunkSize overlap st)"
    if full: "length tx \<le> length (snd st)"
  proof (cases "overlap = 0")
    case True
    then show ?thesis unfolding fst' using e by auto
  next
    case False
    with o have o1: "1 \<le> overlap" by simp
    have "?k * 1 \<le> ?k * overlap" using o1 by (intro mult_left_mono) auto
    then have k2: "?k \<le> ?k * overlap" by (simp only: mult_1_right)
    have k1: "int (length tx) < ?k" using full by simp
    from k1 k2 e o have "?e - overlap \<le> ?k * overlap" by linarith
    then show ?thesis unfolding fst' using e by auto
  qed
  show ?thesis using nonneg grows by (simp add: chunk_step_openai_def Let_def)
qed

lemma chunk_loop_openai_returns:
  assumes c: "1 \<le> chunkSize" and o: "0 \<le> overlap"
  shows "0 \<le> fst st \<longrightarrow> (\<exists>r. chunk_loop_openai tx chunkSize overlap st = Some r)"
proof -
  define R where "R = inv_image (less_than <*lex*> less_than)
      (\<lambda>st :: int \<times> chunk list. (length tx - min (length tx) (length (snd st)), length tx - nat (fst st)))"
  have "wf R" unfolding R_def by (intro wf_inv_image wf_lex_prod wf_less_than)
  then show ?thesis
  proof (induction st rule: wf_induct_rule)
    case (less st)
    show ?case
    proof (intro impI)
      assume p0: "0 \<le> fst st"
      show "\<exists>r. chunk_loop_openai tx chunkSize overlap st = Some r"
      proof (cases "fst st < int (length tx)")
        case False
        then show ?thesis by (subst chunk_loop_openai.simps) simp
      next
        case True
        let ?st' = "chunk_step_openai tx chunkSize overlap st"
        from chunk_step_openai_progress [OF True p0 c o]
        have k: "length (snd ?st') = Suc (length (snd st))" and p0': "0 \<le> fst ?st'"
          and g: "length tx \<le> length (snd st) \<Longrightarrow> fst st < fst ?st'" by auto
        have "(?st', st) \<in> R"
        proof (cases "length tx \<le> length (snd st)")
          case full: True
          from g [OF full] True p0 have "length tx - nat (fst ?st') < length tx - nat (fst st)"
            by linarith
          with full k show ?thesis by (simp add: R_def)
        next
          case False
          with k show ?thesis by (auto simp: R_def)
        qed
        from less [OF this] p0' obtain r where "chunk_loop_openai tx chunkSize overlap ?st' = Some r"
          by blast
        with True show ?thesis by (subst chunk_loop_openai.simps) simp
      qed
    qed
  qed
qed

lemma chunkText_openai_returns:
  "1 \<le> chunkSize \<Longrightarrow> 0 \<le> overlap \<Longrightarrow> \<exists>r. chunkText_openai tx chunkSize overlap = Some r"
  using chunk_loop_openai_returns [of chunkSize overlap "(0, [])" tx]
  by (simp add: chunkText_openai_def)

lemma chunkText_openai_blank_returns:
  "\<exists>r. chunkText_openai (replicate 100 (CHR '' '')) 1 1 = Some r"
  by (rule chunkText_openai_returns) simp_all


section \<open>Properties of the import orchestrator\<close>

subsection \<open>One page\<close>

lemma archiveSinglePage_resolves:
  "\<exists>r w'. archiveSinglePage e w u userId t tgs = (Inr r, w')"
  by (cases "archiveSinglePage_try e w u userId t tgs"; cases "fst (archiveSinglePage_try e w u userId t tgs)")
     (auto simp: archiveSinglePage_def)

lemma archiveSinglePage_skips:
  assumes "select_single e w userId u = Some a"
  shows "archiveSinglePage e w u userId t tgs =
     (Inr (Skipped \<lparr>ref_id = a_id a, ref_url = a_url a, ref_title = a_title a,
                     ref_description = ''Already archived''\<rparr>), w)"
  using assms by (simp add: archiveSinglePage_def archiveSinglePage_try_def)

lemma archiveSinglePage_extraction_failure:
  assumes "select_single e w userId u = None"
    and "extractWithFirecrawl e w u = None" and "basicFetch e w t u = Inl msg"
  shows "archiveSinglePage e w u userId t tgs =
     (Inr (Failure u (''Failed to extract content: '' @ ''Fallback extraction failed: '' @ msg)),
      w\<lparr>extractions := extractions w @ [u]\<rparr>)"
  using assms
  by (simp add: archiveSinglePage_def archiveSinglePage_try_def archivePageWithFirecrawl_def
      puppeteerFallback_def Let_def)

lemma archiveSinglePage_insert_failure:
  assumes "select_single e w userId u = None"
    and "archivePageWithFirecrawl e w u (puppeteerFallback e w t) = (Inr d, w1)"
    and "insert_error e w1 userId u = Some msg"
  shows "archiveSinglePage e w u userId t tgs = (Inr (Failure u msg), w1)"
  using assms
  by (simp add: archiveSinglePage_def archiveSinglePage_try_def insert_archive_def Let_def)

lemma archivePageWithFirecrawl_archives:
  "archives (snd (archivePageWithFirecrawl e w u f)) = archives w"
  by (simp add: archivePageWithFirecrawl_def Let_def split: option.splits sum.splits)

text \<open>
  Claim C10 says that \<open>archiveSinglePage\<close> always resolves to an object with a boolean
  \<open>success\<close>, that it answers \<open>{success: true, skipped: true, archive}\<close> without an
  insert when an ArchiveRecord exists for the pair, and \<open>{success: false, url, error}\<close>
  on any extraction or store failure. The error of the existence query is read into
  \<open>checkError\<close> and never looked at: when that query fails for a page that is archived,
  the page is extracted and inserted a second time and the answer is a plain success.
\<close>

theorem archiveSinglePage_check_error_counterexample:
  "archived world_a ''u'' ''http://a'' \<and>
   select_error env_select_fails world_a ''u'' ''http://a'' \<and>
   archiveSinglePage env_select_fails world_a ''http://a'' ''u'' ''A'' [] =
     (Inr (Archived \<lparr>ref_id = 1, ref_url = ''http://a'', ref_title = ''T'', ref_description = ''D''\<rparr>),
      \<lparr>archives = [row_a,
          \<lparr>a_id = 1, a_user_id = ''u'', a_url = ''http://a'', a_title = ''T'', a_description = ''D'',
             a_html = ''H'', a_text = ''X'', a_markdown = Some ''M'', a_extraction_method = ''firecrawl'',
             a_word_count = 1, a_reading_time = 1, a_tags = []\<rparr>],
        next_id = 2, extractions = [''http://a''], sleeps = []\<rparr>)"
  by code_simp

text \<open>
  Claim C10, amended. \<open>archiveSinglePage\<close> always resolves (it never rejects); when the
  existence query returns a row it answers \<open>{success: true, skipped: true, archive}\<close> and
  leaves the store and the extractor untouched; an error of the existence query is
  ignored and the page is treated as not archived; when the extraction fails, or when the
  insert fails, it answers \<open>{success: false, url, error}\<close> with the error's message and
  no row is added.
\<close>

theorem archiveSinglePage_total:
  "(\<exists>r w'. archiveSinglePage e w u userId t tgs = (Inr r, w')) \<and>
   (\<forall>a. select_single e w userId u = Some a \<longrightarrow>
      archiveSinglePage e w u userId t tgs =
        (Inr (Skipped \<lparr>ref_id = a_id a, ref_url = a_url a, ref_title = a_title a,
                        ref_description = ''Already archived''\<rparr>), w)) \<and>
   (\<forall>msg. select_single e w userId u = None \<and> extractWithFirecrawl e w u = None \<and>
          basicFetch e w t u = Inl msg \<longrightarrow>
      archiveSinglePage e w u userId t tgs =
        (Inr (Failure u (''Failed to extract content: '' @ ''Fallback extraction failed: '' @ msg)),
         w\<lparr>extractions := extractions w @ [u]\<rparr>)) \<and>
   (\<forall>d w1 msg. select_single e w userId u = None \<and>
          archivePageWithFirecrawl e w u (puppeteerFallback e w t) = (Inr d, w1) \<and>
          insert_error e w1 userId u = Some msg \<longrightarrow>
      archiveSinglePage e w u userId t tgs = (Inr (Failure u msg), w1) \<and> archives w1 = archives w)"
proof (intro conjI allI impI)
  show "\<exists>r w'. archiveSinglePage e w u userId t tgs = (Inr r, w')"
    by (rule archiveSinglePage_resolves)
next
  fix a assume "select_single e w userId u = Some a"
  then show "archiveSinglePage e w u userId t tgs =
        (Inr (Skipped \<lparr>ref_id = a_id a, ref_url = a_url a, ref_title = a_title a,
                        ref_description = ''Already archived''\<rparr>), w)"
    by (rule archiveSinglePage_skips)
next
  fix msg
  assume "select_single e w userId u = None \<and> extractWithFirecrawl e w u = None \<and>
          basicFetch e w t u = Inl msg"
  then show "archiveSinglePage e w u userId t tgs =
        (Inr (Failure u (''Failed to extract content: '' @ ''Fallback extraction failed: '' @ msg)),
         w\<lparr>extractions := extractions w @ [u]\<rparr>)"
    using archiveSinglePage_extraction_failure by blast
next
  fix d w1 msg
  assume h: "select_single e w userId u = None \<and>
          archivePageWithFirecrawl e w u (puppeteerFallback e w t) = (Inr d, w1) \<and>
          insert_error e w1 userId u = Some msg"
  then show "archiveSinglePage e w u userId t tgs = (Inr (Failure u msg), w1)"
    using archiveSinglePage_insert_failure by blast
  from h show "archives w1 = archives w"
    by (auto simp: archivePageWithFirecrawl_def Let_def split: option.splits sum.splits)
qed

theorem archiveSinglePage_total_witness:
  "archiveSinglePage env_ok world_a ''http://a'' ''u'' ''A'' [] =
     (Inr (Skipped \<lparr>ref_id = 0, ref_url = ''http://a'', ref_title = ''A'',
                     ref_description = ''Already archived''\<rparr>), world_a) \<and>
   archiveSinglePage env_extraction_fails world_a ''http://b'' ''u'' ''B'' [] =
     (Inr (Failure ''http://b'' ''Failed to extract content: Fallback extraction failed: HTTP 500''),
      world_a\<lparr>extractions := [''http://b'']\<rparr>) \<and>
   archiveSinglePage env_insert_fails world_a ''http://b'' ''u'' ''B'' [] =
     (Inr (Failure ''http://b'' ''insert failed''), world_a\<lparr>extractions := [''http://b'']\<rparr>)"
proof (intro conjI)
  have s: "select_single env_ok world_a ''u'' ''http://a'' = Some row_a"
    by (simp add: select_single_def env_ok_def world_a_def matching_def row_a_def)
  from archiveSinglePage_total [of env_ok world_a "''http://a''" "''u''" "''A''" "[]"] s
  show "archiveSinglePage env_ok world_a ''http://a'' ''u'' ''A'' [] =
     (Inr (Skipped \<lparr>ref_id = 0, ref_url = ''http://a'', ref_title = ''A'',
                     ref_description = ''Already archived''\<rparr>), world_a)"
    by (simp add: row_a_def)
next
  have s: "select_single env_extraction_fails world_a ''u'' ''http://b'' = None"
    by (simp add: select_single_def env_extraction_fails_def env_ok_def world_a_def matching_def row_a_def)
  from archiveSinglePage_total [of env_extraction_fails world_a "''http://b''" "''u''" "''B''" "[]"] s
  show "archiveSinglePage env_extraction_fails world_a ''http://b'' ''u'' ''B'' [] =
     (Inr (Failure ''http://b'' ''Failed to extract content: Fallback extraction failed: HTTP 500''),
      world_a\<lparr>extractions := [''http://b'']\<rparr>)"
    by (simp add: env_extraction_fails_def env_ok_def world_a_def)
next
  have s: "select_single env_insert_fails world_a ''u'' ''http://b'' = None"
    by (simp add: select_single_def env_insert_fails_def env_ok_def world_a_def matching_def row_a_def)
  have x: "archivePageWithFirecrawl env_insert_fails world_a ''http://b'' (puppeteerFallback env_insert_fails world_a ''B'')
      = (Inr page_ok, world_a\<lparr>extractions := [''http://b'']\<rparr>)"
    by (simp add: archivePageWithFirecrawl_def env_insert_fails_def env_ok_def world_a_def Let_def)
  from archiveSinglePage_total [of env_insert_fails world_a "''http://b''" "''u''" "''B''" "[]"] s x
  show "archiveSinglePage env_insert_fails world_a ''http://b'' ''u'' ''B'' [] =
     (Inr (Failure ''http://b'' ''insert failed''), world_a\<lparr>extractions := [''http://b'']\<rparr>)"
    by (simp add: env_insert_fails_def env_ok_def)
qed

subsection \<open>The retry loop\<close>

text \<open>
  Claim C3 says that an item whose extraction always fails is attempted \<open>maxRetries + 1\<close>
  times, with a pause of \<open>delayBetweenRequests * attemptNumber\<close> between attempts, and is
  then recorded once with \<open>success = false\<close>. The retry loop retries when
  \<open>archiveSinglePage\<close> throws, and \<open>archiveSinglePage\<close> catches every error and returns
  a failure object instead: the first call ends the loop. Whatever \<open>maxRetries >= 0\<close> is,
  the failing item is extracted once and nothing is awaited.
\<close>

theorem retry_loop_single_attempt:
  assumes "0 \<le> maxRetries opts"
    and "select_single e w userId (url it) = None"
    and "extractWithFirecrawl e w (url it) = None"
    and "basicFetch e w (title it) (url it) = Inl msg"
  shows "retry_loop e opts userId it 0 w =
     (Some (Failure (url it) (''Failed to extract content: '' @ ''Fallback extraction failed: '' @ msg)),
      w\<lparr>extractions := extractions w @ [url it]\<rparr>)"
  using assms archiveSinglePage_extraction_failure [of e w userId "url it" "title it" msg "tags it"]
  by (simp add: retry_loop.simps)

theorem retry_loop_single_attempt_witness:
  "maxRetries opts_default = 2 \<and>
   retry_loop env_extraction_fails opts_default ''u'' item_b 0 world_empty =
     (Some (Failure ''http://b'' ''Failed to extract content: Fallback extraction failed: HTTP 500''),
      \<lparr>archives = [], next_id = 0, extractions = [''http://b''], sleeps = []\<rparr>)"
  using retry_loop_single_attempt [of opts_default env_extraction_fails world_empty "''u''" item_b "''HTTP 500''"]
  by (simp add: opts_default_def env_extraction_fails_def env_ok_def world_empty_def item_b_def
      select_single_def matching_def)

subsection \<open>A call whose existence query was answered earlier\<close>

lemma archiveSinglePage_answered_now:
  "archiveSinglePage_answered e w (select_single e w userId u) u userId t tgs =
     archiveSinglePage e w u userId t tgs"
  by (simp add: archiveSinglePage_answered_def archiveSinglePage_def
      archiveSinglePage_answered_try_def archiveSinglePage_try_def)

lemma archiveSinglePage_answered_resolves:
  "\<exists>r w'. archiveSinglePage_answered e w ex u userId t tgs = (Inr r, w')"
  by (cases "archiveSinglePage_answered_try e w ex u userId t tgs";
      cases "fst (archiveSinglePage_answered_try e w ex u userId t tgs)")
     (auto simp: archiveSinglePage_answered_def)

lemma retry_loop_answered_now:
  "retry_loop_answered e opts userId it (select_single e w userId (url it)) w =
     retry_loop e opts userId it 0 w"
  by (simp add: retry_loop_answered_def retry_loop.simps [of e opts userId it 0 w]
      archiveSinglePage_answered_now split: prod.splits sum.splits)

text \<open>
  A batch of one item is the retry loop of that item, started on the store as it is.
\<close>

lemma run_batch_single:
  "run_batch e opts userId [it] w =
     (case retry_loop e opts userId it 0 w of (r, w1) \<Rightarrow> ([Fulfilled it r], w1))"
  by (simp add: run_batch_def retry_loop_answered_now split: prod.splits)

lemma insert_archive_effect:
  assumes "insert_archive e w userId u d tgs = (r, w')"
  shows "\<exists>ys. archives w' = archives w @ ys \<and> length ys \<le> 1 \<and>
           (\<forall>a \<in> set ys. a_user_id a = userId \<and> a_url a = u) \<and>
           (\<forall>row. r = Inr row \<longrightarrow> ys \<noteq> [])"
  using assms by (auto simp: insert_archive_def Let_def split: option.splits)

lemma archiveSinglePage_answered_effect:
  assumes run: "archiveSinglePage_answered e w ex u userId t tgs = (r, w')"
  shows "\<exists>ys. archives w' = archives w @ ys \<and> length ys \<le> 1 \<and>
           (\<forall>a \<in> set ys. a_user_id a = userId \<and> a_url a = u) \<and>
           (ex \<noteq> None \<longrightarrow> ys = []) \<and>
           (\<forall>res. r = Inr res \<and> success res \<longrightarrow> ex \<noteq> None \<or> ys \<noteq> [])"
proof (cases ex)
  case (Some a)
  with run have "w' = w"
    by (simp add: archiveSinglePage_answered_def archiveSinglePage_answered_try_def)
  with Some show ?thesis by simp
next
  case None
  obtain r1 w1 where x: "archivePageWithFirecrawl e w u (puppeteerFallback e w t) = (r1, w1)"
    by (cases "archivePageWithFirecrawl e w u (puppeteerFallback e w t)") auto
  with archivePageWithFirecrawl_archives [of e w u "puppeteerFallback e w t"]
  have a1: "archives w1 = archives w" by simp
  show ?thesis
  proof (cases r1)
    case (Inl msg)
    with None x run have "r = Inr (Failure u msg)" "w' = w1"
      by (simp_all add: archiveSinglePage_answered_def archiveSinglePage_answered_try_def)
    with a1 None show ?thesis by simp
  next
    case (Inr d)
    let ?d = "if x_title d = [] \<or> x_title d = ''Untitled''
              then d\<lparr>x_title := (if t = [] then ''Untitled'' else t)\<rparr> else d"
    obtain r2 w2 where i: "insert_archive e w1 userId u ?d tgs = (r2, w2)"
      by (cases "insert_archive e w1 userId u ?d tgs") auto
    from insert_archive_effect [OF i] a1 obtain ys where
      ys: "archives w2 = archives w @ ys" "length ys \<le> 1"
        "\<forall>a \<in> set ys. a_user_id a = userId \<and> a_url a = u" "\<forall>row. r2 = Inr row \<longrightarrow> ys \<noteq> []"
      by auto
    show ?thesis
    proof (cases r2)
      case (Inl insertError)
      with None x Inr i run have "r = Inr (Failure u insertError)" "w' = w2"
        by (simp_all add: archiveSinglePage_answered_def archiveSinglePage_answered_try_def Let_def)
      with ys None show ?thesis by auto
    next
      case (Inr row)
      with None x \<open>r1 = Inr d\<close> i run have "w' = w2"
        by (simp add: archiveSinglePage_answered_def archiveSinglePage_answered_try_def Let_def)
      with ys None Inr show ?thesis by auto
    qed
  qed
qed

lemma retry_loop_answered_effect:
  assumes run: "retry_loop_answered e opts userId it ex w = (r, w')"
  shows "\<exists>ys. archives w' = archives w @ ys \<and> length ys \<le> 1 \<and>
           (\<forall>a \<in> set ys. a_user_id a = userId \<and> a_url a = url it) \<and>
           (ex \<noteq> None \<longrightarrow> ys = []) \<and>
           (\<forall>res. r = Some res \<and> success res \<longrightarrow> ex \<noteq> None \<or> ys \<noteq> [])"
proof (cases "0 \<le> maxRetries opts")
  case False
  with run have "r = None" "w' = w" by (simp_all add: retry_loop_answered_def)
  then show ?thesis by simp
next
  case True
  obtain res w1 where a: "archiveSinglePage_answered e w ex (url it) userId (title it) (tags it) = (Inr res, w1)"
    using archiveSinglePage_answered_resolves by blast
  with True run have "r = Some res" "w' = w1" by (simp_all add: retry_loop_answered_def)
  with archiveSinglePage_answered_effect [OF a] show ?thesis by simp
qed

subsection \<open>The batch loop and the counters\<close>

lemma settle_batch_length: "length (fst (settle_batch e opts userId ps w)) = length ps"
proof (induction ps arbitrary: w)
  case Nil
  show ?case by simp
next
  case (Cons p ps)
  obtain it ex where p: "p = (it, ex)" by (cases p)
  obtain r w1 where r: "retry_loop_answered e opts userId it ex w = (r, w1)"
    by (cases "retry_loop_answered e opts userId it ex w") auto
  obtain ss w2 where b: "settle_batch e opts userId ps w1 = (ss, w2)"
    by (cases "settle_batch e opts userId ps w1") auto
  from Cons [of w1] b have "length ss = length ps" by simp
  with p r b show ?case by simp
qed

lemma run_batch_length: "length (fst (run_batch e opts userId batch w)) = length batch"
  by (simp add: run_batch_def settle_batch_length)

lemma count_result_sum:
  "successful (count_result s r) + failed (count_result s r) + skipped (count_result s r) =
     successful s + failed s + skipped s + 1"
  by (simp add: count_result_def Let_def)

lemma count_result_total: "total (count_result s r) = total s"
  by (simp add: count_result_def Let_def)

lemma count_result_duplicates: "duplicates (count_result s r) = duplicates s"
  by (simp add: count_result_def Let_def)

lemma count_result_skipped:
  "skipped (count_result s r) + length (filter is_skipped (results s)) =
     skipped s + length (filter is_skipped (results (count_result s r)))"
  by (cases r) (simp_all add: count_result_def Let_def)

lemma count_result_failed:
  "failed (count_result s r) = (if success r then failed s else failed s + 1)"
  by (simp add: count_result_def Let_def)

lemma record_settled_counts:
  "record_settled s ss = Inr s1 \<Longrightarrow>
     successful s1 + failed s1 + skipped s1 = successful s + failed s + skipped s + length ss \<and>
     total s1 = total s \<and> duplicates s1 = duplicates s \<and>
     skipped s1 + length (filter is_skipped (results s)) =
       skipped s + length (filter is_skipped (results s1))"
proof (induction s ss rule: record_settled.induct)
  case (3 s urlData result rest)
  then show ?case
    using count_result_sum [of s result] count_result_skipped [of s result]
    by (simp add: count_result_total count_result_duplicates)
qed auto

lemma js_slice_window:
  assumes "0 \<le> i" and "i < int (length xs)" and "1 \<le> b"
  shows "js_slice xs i (i + b) = take (nat b) (drop (nat i) xs)"
  using assms by (auto simp: js_slice_def Let_def min_def)

lemma batch_loop_rule:
  assumes ret: "batch_loop e opts userId xs st = Some (Inr s', w')"
    and init: "I st"
    and step: "\<And>i s w batchResults w1 s1.
        I (i, s, w) \<Longrightarrow> i < int (length xs) \<Longrightarrow>
        run_batch e opts userId (js_slice xs i (i + batchSize opts)) w = (batchResults, w1) \<Longrightarrow>
        record_settled s batchResults = Inr s1 \<Longrightarrow>
        I (i + batchSize opts, s1,
           if i + batchSize opts < int (length xs) \<and> 0 < delayBetweenBatches opts
           then w1\<lparr>sleeps := sleeps w1 @ [delayBetweenBatches opts]\<rparr> else w1)"
  shows "\<exists>i. int (length xs) \<le> i \<and> I (i, s', w')"
proof -
  define P where "P = (\<lambda>(e'::env) (opts'::options) (userId'::string) (xs'::item list)
      (st :: int \<times> summary \<times> world) (y :: (string + summary) \<times> world).
      e' = e \<and> opts' = opts \<and> userId' = userId \<and> xs' = xs \<longrightarrow> I st \<longrightarrow>
      (\<forall>s' w'. y = (Inr s', w') \<longrightarrow> (\<exists>i. int (length xs) \<le> i \<and> I (i, s', w'))))"
  have "P e opts userId xs st (Inr s', w')"
  proof (rule batch_loop.raw_induct [where P = P, OF _ ret])
    fix loop e' opts' userId' xs' st y
    assume IH: "\<And>e' opts' userId' xs' st y. loop e' opts' userId' xs' st = Some y \<Longrightarrow> P e' opts' userId' xs' st y"
      and eq: "(case st of (i, s, w) \<Rightarrow>
          if i < int (length xs') then
            (case run_batch e' opts' userId' (js_slice xs' i (i + batchSize opts')) w of
               (batchResults, w1) \<Rightarrow>
                 (case record_settled s batchResults of
                    Inl err \<Rightarrow> Some (Inl err, w1)
                  | Inr s1 \<Rightarrow>
                      loop e' opts' userId' xs'
                        (i + batchSize opts', s1,
                         if i + batchSize opts' < int (length xs') \<and> 0 < delayBetweenBatches opts'
                         then w1\<lparr>sleeps := sleeps w1 @ [delayBetweenBatches opts']\<rparr> else w1)))
          else Some (Inr s, w)) = Some y"
    show "P e' opts' userId' xs' st y"
      unfolding P_def
    proof (intro impI allI)
      fix s'' w''
      assume same: "e' = e \<and> opts' = opts \<and> userId' = userId \<and> xs' = xs"
        and inv: "I st" and y: "y = (Inr s'', w'')"
      obtain i s w where st: "st = (i, s, w)" by (cases st) auto
      show "\<exists>i. int (length xs) \<le> i \<and> I (i, s'', w'')"
      proof (cases "i < int (length xs)")
        case False
        with eq st same y have "s'' = s" "w'' = w" by auto
        with False inv st show ?thesis by (intro exI [of _ i]) auto
      next
        case True
        obtain batchResults w1 where rb:
          "run_batch e opts userId (js_slice xs i (i + batchSize opts)) w = (batchResults, w1)"
          by (cases "run_batch e opts userId (js_slice xs i (i + batchSize opts)) w") auto
        show ?thesis
        proof (cases "record_settled s batchResults")
          case (Inl err)
          with eq st same y True rb show ?thesis by auto
        next
          case (Inr s1)
          let ?w2 = "if i + batchSize opts < int (length xs) \<and> 0 < delayBetweenBatches opts
                     then w1\<lparr>sleeps := sleeps w1 @ [delayBetweenBatches opts]\<rparr> else w1"
          from eq st same True rb Inr
          have "loop e opts userId xs (i + batchSize opts, s1, ?w2) = Some y" by auto
          from IH [OF this] have "P e opts userId xs (i + batchSize opts, s1, ?w2) y" .
          moreover have "I (i + batchSize opts, s1, ?w2)"
            using step [OF _ True rb Inr] inv st by simp
          ultimately show ?thesis using y unfolding P_def by blast
        qed
      qed
    qed
  qed
  with init show ?thesis unfolding P_def by blast
qed

lemma batch_loop_returns:
  assumes "1 \<le> batchSize opts"
  shows "\<exists>r. batch_loop e opts userId xs (i, s, w) = Some r"
proof (induction "nat (int (length xs) - i)" arbitrary: i s w rule: less_induct)
  case less
  show ?case
  proof (cases "i < int (length xs)")
    case False
    then show ?thesis by (subst batch_loop.simps) simp
  next
    case True
    obtain batchResults w1 where rb:
      "run_batch e opts userId (js_slice xs i (i + batchSize opts)) w = (batchResults, w1)"
      by (cases "run_batch e opts userId (js_slice xs i (i + batchSize opts)) w") auto
    show ?thesis
    proof (cases "record_settled s batchResults")
      case (Inl err)
      with True rb show ?thesis by (subst batch_loop.simps) simp
    next
      case (Inr s1)
      let ?w2 = "if i + batchSize opts < int (length xs) \<and> 0 < delayBetweenBatches opts
                 then w1\<lparr>sleeps := sleeps w1 @ [delayBetweenBatches opts]\<rparr> else w1"
      have "nat (int (length xs) - (i + batchSize opts)) < nat (int (length xs) - i)"
        using assms True by simp
      from less [OF this] obtain r where
        "batch_loop e opts userId xs (i + batchSize opts, s1, ?w2) = Some r" by blast
      with True rb Inr show ?thesis by (subst batch_loop.simps) simp
    qed
  qed
qed

lemma checkForDuplicates_partition:
  "checkForDuplicates e w urls userId = (newUrls, dups) \<Longrightarrow> length urls = length newUrls + length dups"
proof (cases "dup_scan e w userId (map url urls) 0 []")
  case None
  then show "checkForDuplicates e w urls userId = (newUrls, dups) \<Longrightarrow> ?thesis"
    by (auto simp: checkForDuplicates_def)
next
  case (Some ex)
  then show "checkForDuplicates e w urls userId = (newUrls, dups) \<Longrightarrow> ?thesis"
    using sum_length_filter_compl [of "\<lambda>it. url it \<in> set ex" urls]
    by (auto simp: checkForDuplicates_def)
qed

lemma batch_loop_counts:
  assumes ret: "batch_loop e opts userId xs (0, s0, w0) = Some (Inr s', w')"
  shows "successful s' + failed s' + skipped s' = successful s0 + failed s0 + skipped s0 + length xs \<and>
         total s' = total s0 \<and> duplicates s' = duplicates s0 \<and>
         skipped s' + length (filter is_skipped (results s0)) =
           skipped s0 + length (filter is_skipped (results s'))"
proof -
  let ?n = "int (length xs)"
  let ?Q = "\<lambda>k s. successful s + failed s + skipped s = successful s0 + failed s0 + skipped s0 + k \<and>
      total s = total s0 \<and> duplicates s = duplicates s0 \<and>
      skipped s + length (filter is_skipped (results s0)) =
        skipped s0 + length (filter is_skipped (results s))"
  let ?I = "\<lambda>st. case st of (i, s, w) \<Rightarrow>
      (1 \<le> batchSize opts \<and> 0 \<le> i \<and> ?Q (nat (min i ?n)) s) \<or>
      (batchSize opts \<le> 0 \<and> ((i = 0 \<and> ?Q 0 s) \<or> (0 < ?n \<and> i \<le> 0)))"
  have "\<exists>i. ?n \<le> i \<and> ?I (i, s', w')"
  proof (rule batch_loop_rule [where I = ?I, OF ret])
    show "?I (0, s0, w0)" by auto
  next
    fix i s w batchResults w1 s1
    assume inv: "?I (i, s, w)" and lt: "i < ?n"
      and rb: "run_batch e opts userId (js_slice xs i (i + batchSize opts)) w = (batchResults, w1)"
      and rs: "record_settled s batchResults = Inr s1"
    let ?w2 = "if i + batchSize opts < ?n \<and> 0 < delayBetweenBatches opts
               then w1\<lparr>sleeps := sleeps w1 @ [delayBetweenBatches opts]\<rparr> else w1"
    show "?I (i + batchSize opts, s1, ?w2)"
    proof (cases "1 \<le> batchSize opts")
      case False
      with inv lt show ?thesis by auto
    next
      case True
      with inv have i0: "0 \<le> i" and q: "?Q (nat (min i ?n)) s" by auto
      have "length batchResults = length (js_slice xs i (i + batchSize opts))"
        using run_batch_length [of e opts userId "js_slice xs i (i + batchSize opts)" w] rb by simp
      also have "\<dots> = min (nat (batchSize opts)) (length xs - nat i)"
        using i0 lt True by (simp add: js_slice_window)
      also have "\<dots> = nat (min (i + batchSize opts) ?n) - nat i"
        using i0 lt True by arith
      finally have len: "length batchResults = nat (min (i + batchSize opts) ?n) - nat i" .
      have "nat (min (i + batchSize opts) ?n) = nat (min i ?n) + length batchResults"
        using len i0 lt True by (auto simp: min_def)
      with record_settled_counts [OF rs] q True i0
      show ?thesis by auto
    qed
  qed
  then obtain i where ge: "?n \<le> i" and inv: "?I (i, s', w')" by blast
  have "xs = []" if "i \<le> 0"
  proof -
    from that ge have "int (length xs) \<le> 0" by linarith
    then show ?thesis by simp
  qed
  with ge inv show ?thesis by (auto simp: min_def)
qed

lemma first_run_ok:
  "processPocketImport env_ok world_a [item_a, item_b, item_c] ''u'' opts_default =
     Some (Inr \<lparr>total = 3, successful = 2, failed = 0,
                 results = [Archived \<lparr>ref_id = 1, ref_url = ''http://b'', ref_title = ''T'', ref_description = ''D''\<rparr>,
                            Archived \<lparr>ref_id = 2, ref_url = ''http://c'', ref_title = ''T'', ref_description = ''D''\<rparr>],
                 duplicates = 1, skipped = 1\<rparr>,
           \<lparr>archives = [row_a,
               \<lparr>a_id = 1, a_user_id = ''u'', a_url = ''http://b'', a_title = ''T'', a_description = ''D'',
                  a_html = ''H'', a_text = ''X'', a_markdown = Some ''M'', a_extraction_method = ''firecrawl'',
                  a_word_count = 1, a_reading_time = 1, a_tags = []\<rparr>,
               \<lparr>a_id = 2, a_user_id = ''u'', a_url = ''http://c'', a_title = ''T'', a_description = ''D'',
                  a_html = ''H'', a_text = ''X'', a_markdown = Some ''M'', a_extraction_method = ''firecrawl'',
                  a_word_count = 1, a_reading_time = 1, a_tags = []\<rparr>],
             next_id = 3, extractions = [''http://b'', ''http://c''], sleeps = []\<rparr>)"
  by code_simp

subsection \<open>The duplicate check\<close>

lemma archived_mono:
  assumes "archives w' = archives w @ ys" and "archived w userId u"
  shows "archived w' userId u"
  using assms by (auto simp: archived_def matching_def)

lemma select_single_archived: "select_single e w userId u = Some a \<Longrightarrow> archived w userId u"
  by (auto simp: select_single_def archived_def split: if_splits list.splits)

lemma dup_scan_sound:
  "dup_scan e w userId urlList i ex = Some ex' \<Longrightarrow>
   list_all (archived w userId) ex \<Longrightarrow> list_all (archived w userId) ex'"
proof (induction e w userId urlList i ex rule: dup_scan.induct)
  case (1 e w userId urlList i ex)
  show ?case
  proof (cases "i < length urlList")
    case False
    with "1.prems" show ?thesis by (simp add: dup_scan.simps)
  next
    case True
    let ?batch = "take 100 (drop i urlList)"
    let ?found = "map a_url (filter (\<lambda>a. a_user_id a = userId \<and> a_url a \<in> set ?batch) (archives w))"
    have found: "list_all (archived w userId) ?found"
      by (auto simp: list_all_iff archived_def matching_def filter_empty_conv)
    show ?thesis
    proof (cases "in_query_fault e w userId ?batch")
      case NoFault
      with True "1.prems"(1) have "dup_scan e w userId urlList (i + 100) (ex @ ?found) = Some ex'"
        by (subst (asm) dup_scan.simps) (simp add: Let_def)
      with "1.IH"(1) [OF True refl NoFault] "1.prems"(2) found show ?thesis by simp
    next
      case ErrorReply
      with True "1.prems"(1) have "dup_scan e w userId urlList (i + 100) ex = Some ex'"
        by (subst (asm) dup_scan.simps) (simp add: Let_def)
      with "1.IH"(2) [OF True refl ErrorReply] "1.prems"(2) show ?thesis by simp
    next
      case Throws
      with True "1.prems"(1) show ?thesis
        by (subst (asm) dup_scan.simps) (simp add: Let_def)
    qed
  qed
qed

lemma dup_scan_complete:
  assumes nf: "\<forall>batch. in_query_fault e w userId batch = NoFault"
  shows "\<exists>ex'. dup_scan e w userId urlList i ex = Some ex' \<and> set ex \<subseteq> set ex' \<and>
         (\<forall>u \<in> set (drop i urlList). archived w userId u \<longrightarrow> u \<in> set ex')"
  using nf
proof (induction e w userId urlList i ex rule: dup_scan.induct)
  case (1 e w userId urlList i ex)
  show ?case
  proof (cases "i < length urlList")
    case False
    then show ?thesis by (simp add: dup_scan.simps)
  next
    case True
    let ?batch = "take 100 (drop i urlList)"
    let ?found = "map a_url (filter (\<lambda>a. a_user_id a = userId \<and> a_url a \<in> set ?batch) (archives w))"
    have nofault: "in_query_fault e w userId ?batch = NoFault" using "1.prems" by simp
    from "1.IH"(1) [OF True refl nofault "1.prems"]
    obtain ex' where r: "dup_scan e w userId urlList (i + 100) (ex @ ?found) = Some ex'"
      and sub: "set (ex @ ?found) \<subseteq> set ex'"
      and rest: "\<forall>u \<in> set (drop (i + 100) urlList). archived w userId u \<longrightarrow> u \<in> set ex'"
      by blast
    have step: "dup_scan e w userId urlList i ex = Some ex'"
      using True nofault r by (subst dup_scan.simps) (simp add: Let_def)
    have split: "drop i urlList = ?batch @ drop (i + 100) urlList"
      by (metis add.commute append_take_drop_id drop_drop)
    have "u \<in> set ex'" if u: "u \<in> set (drop i urlList)" and a: "archived w userId u" for u
    proof (cases "u \<in> set ?batch")
      case True
      from a obtain row where "row \<in> set (archives w)" "a_user_id row = userId" "a_url row = u"
        by (auto simp: archived_def matching_def filter_empty_conv)
      with True have "u \<in> set ?found" by force
      with sub show ?thesis by auto
    next
      case False
      with u split have "u \<in> set (drop (i + 100) urlList)"
        by (metis Un_iff set_append)
      with rest a show ?thesis by blast
    qed
    with step sub show ?thesis by auto
  qed
qed

lemma checkForDuplicates_sound:
  assumes "checkForDuplicates e w urls userId = (newUrls, dups)"
  shows "list_all (\<lambda>it. archived w userId (url it)) dups \<and> set urls = set newUrls \<union> set dups"
proof (cases "dup_scan e w userId (map url urls) 0 []")
  case None
  with assms show ?thesis by (auto simp: checkForDuplicates_def)
next
  case (Some ex)
  from dup_scan_sound [OF Some] have "list_all (archived w userId) ex" by simp
  with assms Some show ?thesis
    by (auto simp: checkForDuplicates_def list_all_iff)
qed

lemma checkForDuplicates_all:
  assumes nf: "\<forall>batch. in_query_fault e w userId batch = NoFault"
    and all: "list_all (\<lambda>it. archived w userId (url it)) urls"
  shows "checkForDuplicates e w urls userId = ([], urls)"
proof -
  from dup_scan_complete [OF nf, of "map url urls" 0 "[]"]
  obtain ex where r: "dup_scan e w userId (map url urls) 0 [] = Some ex"
    and c: "\<forall>u \<in> set (map url urls). archived w userId u \<longrightarrow> u \<in> set ex"
    by auto
  from c all have "\<forall>it \<in> set urls. url it \<in> set ex" by (auto simp: list_all_iff)
  then have "filter (\<lambda>it. url it \<notin> set ex) urls = []" "filter (\<lambda>it. url it \<in> set ex) urls = urls"
    by (auto simp: filter_empty_conv filter_id_conv)
  with r show ?thesis by (simp add: checkForDuplicates_def)
qed

lemma checkForDuplicates_exact:
  assumes nf: "\<forall>batch. in_query_fault e w userId batch = NoFault"
  shows "checkForDuplicates e w urls userId =
     (filter (\<lambda>it. \<not> archived w userId (url it)) urls,
      filter (\<lambda>it. archived w userId (url it)) urls)"
proof -
  from dup_scan_complete [OF nf, of "map url urls" 0 "[]"]
  obtain ex where r: "dup_scan e w userId (map url urls) 0 [] = Some ex"
    and c: "\<forall>u \<in> set (map url urls). archived w userId u \<longrightarrow> u \<in> set ex"
    by auto
  from dup_scan_sound [OF r] have s: "list_all (archived w userId) ex" by simp
  have iff: "url it \<in> set ex \<longleftrightarrow> archived w userId (url it)" if "it \<in> set urls" for it
    using that c s by (auto simp: list_all_iff)
  have "filter (\<lambda>it. url it \<notin> set ex) urls = filter (\<lambda>it. \<not> archived w userId (url it)) urls"
    by (rule filter_cong) (simp_all add: iff)
  moreover have "filter (\<lambda>it. url it \<in> set ex) urls = filter (\<lambda>it. archived w userId (url it)) urls"
    by (rule filter_cong) (simp_all add: iff)
  ultimately show ?thesis using r by (simp add: checkForDuplicates_def)
qed

subsection \<open>The summary\<close>

text \<open>
  Claim C4 says that every returned summary satisfies
  \<open>total = successful + failed + skipped\<close> with the rows that were archived before the run
  counted in \<open>skipped\<close> and in \<open>duplicates\<close>. \<open>duplicates\<close> is what the duplicate check
  found, and that check declares every row new when its query throws: an archived row is
  then skipped by \<open>archiveSinglePage\<close> and counted in \<open>skipped\<close> only.
\<close>

theorem duplicate_check_throws_counterexample:
  "archived world_a ''u'' ''http://a'' \<and>
   processPocketImport env_duplicate_check_throws world_a [item_a, item_b] ''u'' opts_default =
     Some (Inr \<lparr>total = 2, successful = 1, failed = 0,
                 results = [Skipped \<lparr>ref_id = 0, ref_url = ''http://a'', ref_title = ''A'',
                                      ref_description = ''Already archived''\<rparr>,
                            Archived \<lparr>ref_id = 1, ref_url = ''http://b'', ref_title = ''T'', ref_description = ''D''\<rparr>],
                 duplicates = 0, skipped = 1\<rparr>,
           \<lparr>archives = [row_a,
               \<lparr>a_id = 1, a_user_id = ''u'', a_url = ''http://b'', a_title = ''T'', a_description = ''D'',
                  a_html = ''H'', a_text = ''X'', a_markdown = Some ''M'', a_extraction_method = ''firecrawl'',
                  a_word_count = 1, a_reading_time = 1, a_tags = []\<rparr>],
             next_id = 2, extractions = [''http://b''], sleeps = []\<rparr>)"
  by code_simp

text \<open>
  Claim C4, amended. A run with \<open>batchSize >= 1\<close> returns, and every summary that a run
  returns satisfies \<open>total = successful + failed + skipped\<close>, where \<open>total\<close> is the number
  of rows and \<open>skipped\<close> is \<open>duplicates\<close> plus the number of rows that \<open>archiveSinglePage\<close>
  found archived. When the queries of the duplicate check succeed, \<open>duplicates\<close> is the
  number of rows whose URL was archived for the user before the run. The example is the
  scenario of three rows of which one is already archived.
\<close>

theorem processPocketImport_summary_total:
  "(1 \<le> batchSize opts \<longrightarrow> processPocketImport e w urls userId opts \<noteq> None) \<and>
   (\<forall>s w'. processPocketImport e w urls userId opts = Some (Inr s, w') \<longrightarrow>
      total s = successful s + failed s + skipped s \<and> total s = length urls \<and>
      skipped s = duplicates s + length (filter is_skipped (results s)) \<and>
      ((\<forall>batch. in_query_fault e w userId batch = NoFault) \<longrightarrow>
         duplicates s = length (filter (\<lambda>it. archived w userId (url it)) urls)))"
proof (intro conjI impI allI)
  assume "1 \<le> batchSize opts"
  then show "processPocketImport e w urls userId opts \<noteq> None"
    using batch_loop_returns [of opts e userId]
    by (auto simp: processPocketImport_def split: prod.splits)
next
  fix s w'
  assume ret: "processPocketImport e w urls userId opts = Some (Inr s, w')"
  obtain newUrls dups where cd: "checkForDuplicates e w urls userId = (newUrls, dups)"
    by (cases "checkForDuplicates e w urls userId") auto
  let ?s0 = "\<lparr>total = length urls, successful = 0, failed = 0, results = [],
               duplicates = length dups, skipped = length dups\<rparr>"
  from ret cd have "batch_loop e opts userId newUrls (0, ?s0, w) = Some (Inr s, w')"
    by (simp add: processPocketImport_def)
  from batch_loop_counts [OF this] checkForDuplicates_partition [OF cd]
  have c: "successful s + failed s + skipped s = length urls" "total s = length urls"
    "duplicates s = length dups" "skipped s = length dups + length (filter is_skipped (results s))"
    by auto
  from c show "total s = successful s + failed s + skipped s" by simp
  show "total s = length urls" by (rule c)
  show "skipped s = duplicates s + length (filter is_skipped (results s))" using c by simp
  show "duplicates s = length (filter (\<lambda>it. archived w userId (url it)) urls)"
    if "\<forall>batch. in_query_fault e w userId batch = NoFault"
    using checkForDuplicates_exact [OF that, of urls] cd c by simp
qed

theorem processPocketImport_summary_total_witness:
  "1 \<le> batchSize opts_default \<and>
   (\<forall>batch. in_query_fault env_ok world_a ''u'' batch = NoFault) \<and>
   length (filter (\<lambda>it. archived world_a ''u'' (url it)) [item_a, item_b, item_c]) = 1 \<and>
   (\<exists>s w'. processPocketImport env_ok world_a [item_a, item_b, item_c] ''u'' opts_default = Some (Inr s, w') \<and>
      total s = 3 \<and> successful s = 2 \<and> failed s = 0 \<and> duplicates s = 1 \<and> skipped s = 1 \<and>
      total s = successful s + failed s + skipped s \<and>
      duplicates s = length (filter (\<lambda>it. archived world_a ''u'' (url it)) [item_a, item_b, item_c]))"
proof -
  have nf: "\<forall>batch. in_query_fault env_ok world_a ''u'' batch = NoFault"
    by (simp add: env_ok_def)
  have one: "length (filter (\<lambda>it. archived world_a ''u'' (url it)) [item_a, item_b, item_c]) = 1"
    by (simp add: archived_def matching_def world_a_def row_a_def item_a_def item_b_def item_c_def)
  from processPocketImport_summary_total [of opts_default env_ok world_a "[item_a, item_b, item_c]" "''u''"]
    first_run_ok nf one
  show ?thesis by (simp add: opts_default_def)
qed

subsection \<open>Importing the same table twice\<close>

lemma archived_iff:
  "archived w userId u \<longleftrightarrow> (\<exists>a \<in> set (archives w). a_user_id a = userId \<and> a_url a = u)"
  by (auto simp: archived_def matching_def filter_empty_conv)

lemma settle_batch_archives:
  "settle_batch e opts userId ps w = (ss, w') \<Longrightarrow> \<exists>ys. archives w' = archives w @ ys"
proof (induction ps arbitrary: w ss w')
  case Nil
  then show ?case by simp
next
  case (Cons p ps)
  obtain it ex where p: "p = (it, ex)" by (cases p)
  obtain r w1 where r: "retry_loop_answered e opts userId it ex w = (r, w1)"
    by (cases "retry_loop_answered e opts userId it ex w") auto
  obtain ss1 w2 where b: "settle_batch e opts userId ps w1 = (ss1, w2)"
    by (cases "settle_batch e opts userId ps w1") auto
  from Cons.prems p r b have "w' = w2" by simp
  with Cons.IH [OF b] retry_loop_answered_effect [OF r] show ?case by auto
qed

lemma run_batch_archives:
  "run_batch e opts userId batch w = (ss, w') \<Longrightarrow> \<exists>ys. archives w' = archives w @ ys"
  unfolding run_batch_def by (rule settle_batch_archives)

lemma settle_batch_success_archived:
  "settle_batch e opts userId ps w = (ss, w') \<Longrightarrow> list_all fulfilled_success ss \<Longrightarrow>
   list_all (\<lambda>p. snd p \<noteq> None \<longrightarrow> archived w userId (url (fst p))) ps \<Longrightarrow>
     list_all (\<lambda>p. archived w' userId (url (fst p))) ps"
proof (induction ps arbitrary: w ss w')
  case Nil
  then show ?case by simp
next
  case (Cons p ps)
  obtain it ex where p: "p = (it, ex)" by (cases p)
  obtain r w1 where r: "retry_loop_answered e opts userId it ex w = (r, w1)"
    by (cases "retry_loop_answered e opts userId it ex w") auto
  obtain ss1 w2 where b: "settle_batch e opts userId ps w1 = (ss1, w2)"
    by (cases "settle_batch e opts userId ps w1") auto
  from Cons.prems(1) p r b have eq: "ss = Fulfilled it r # ss1" "w' = w2" by auto
  with Cons.prems(2) obtain res where res: "r = Some res" "success res"
    and rest: "list_all fulfilled_success ss1"
    by (cases r) auto
  from retry_loop_answered_effect [OF r] res obtain ys where
    ys: "archives w1 = archives w @ ys" "\<forall>a \<in> set ys. a_user_id a = userId \<and> a_url a = url it"
      "ex \<noteq> None \<or> ys \<noteq> []"
    by auto
  from Cons.prems(3) p have known: "ex \<noteq> None \<Longrightarrow> archived w userId (url it)" by simp
  have here: "archived w1 userId (url it)"
  proof (cases "ex \<noteq> None")
    case True
    from archived_mono [OF ys(1) known [OF True]] show ?thesis .
  next
    case False
    with ys(3) obtain a where "a \<in> set ys" by (cases ys) auto
    with ys(1,2) show ?thesis by (auto simp: archived_iff)
  qed
  from settle_batch_archives [OF b] obtain zs where zs: "archives w2 = archives w1 @ zs" by blast
  have first: "archived w2 userId (url it)" by (rule archived_mono [OF zs here])
  have "list_all (\<lambda>p. snd p \<noteq> None \<longrightarrow> archived w1 userId (url (fst p))) ps"
    using Cons.prems(3) archived_mono [OF ys(1)] by (auto simp: list_all_iff)
  from Cons.IH [OF b rest this] first eq p show ?case by simp
qed

lemma run_batch_success_archived:
  assumes "run_batch e opts userId batch w = (ss, w')" and "list_all fulfilled_success ss"
  shows "list_all (\<lambda>it. archived w' userId (url it)) batch"
proof -
  let ?ps = "map (\<lambda>urlData. (urlData, select_single e w userId (url urlData))) batch"
  have "list_all (\<lambda>p. snd p \<noteq> None \<longrightarrow> archived w userId (url (fst p))) ?ps"
    using select_single_archived by (fastforce simp: list_all_iff)
  from settle_batch_success_archived [OF assms(1) [unfolded run_batch_def] assms(2) this]
  show ?thesis by (simp add: list_all_iff)
qed

lemma record_settled_failed:
  "record_settled s ss = Inr s1 \<Longrightarrow> failed s \<le> failed s1 \<and>
     (failed s1 = failed s \<longrightarrow> list_all fulfilled_success ss)"
proof (induction s ss rule: record_settled.induct)
  case (3 s urlData result rest)
  then show ?case
    by (auto simp add: count_result_failed split: if_splits)
qed auto

lemma batch_loop_archived:
  assumes ret: "batch_loop e opts userId xs (0, s0, w0) = Some (Inr s', w')"
  shows "(\<exists>ys. archives w' = archives w0 @ ys) \<and>
         (failed s' = failed s0 \<longrightarrow> list_all (\<lambda>it. archived w' userId (url it)) xs)"
proof -
  let ?n = "int (length xs)"
  let ?A = "\<lambda>w. list_all (\<lambda>it. archived w userId (url it))"
  define I where "I = (\<lambda>st :: int \<times> summary \<times> world. case st of (i, s, w) \<Rightarrow>
      (\<exists>ys. archives w = archives w0 @ ys) \<and> failed s0 \<le> failed s \<and>
      ((1 \<le> batchSize opts \<and> 0 \<le> i \<and> (failed s = failed s0 \<longrightarrow> ?A w (take (nat i) xs))) \<or>
       (batchSize opts \<le> 0 \<and> (i = 0 \<or> (0 < ?n \<and> i \<le> 0)))))"
  have "\<exists>i. ?n \<le> i \<and> I (i, s', w')"
  proof (rule batch_loop_rule [where I = I, OF ret])
    show "I (0, s0, w0)" by (auto simp: I_def)
  next
    fix i s w batchResults w1 s1
    assume inv: "I (i, s, w)" and lt: "i < ?n"
      and rb: "run_batch e opts userId (js_slice xs i (i + batchSize opts)) w = (batchResults, w1)"
      and rs: "record_settled s batchResults = Inr s1"
    let ?w2 = "if i + batchSize opts < ?n \<and> 0 < delayBetweenBatches opts
               then w1\<lparr>sleeps := sleeps w1 @ [delayBetweenBatches opts]\<rparr> else w1"
    from inv obtain ys where ys: "archives w = archives w0 @ ys" and f0: "failed s0 \<le> failed s"
      by (auto simp: I_def)
    from run_batch_archives [OF rb] obtain zs where zs: "archives w1 = archives w @ zs" by blast
    have a2: "archives ?w2 = archives w1" by simp
    from record_settled_failed [OF rs] have f1: "failed s \<le> failed s1"
      and ok: "failed s1 = failed s \<Longrightarrow> list_all fulfilled_success batchResults" by auto
    have pre: "\<exists>ys. archives ?w2 = archives w0 @ ys" using ys zs by simp
    show "I (i + batchSize opts, s1, ?w2)"
    proof (cases "1 \<le> batchSize opts")
      case False
      with inv lt pre f0 f1 show ?thesis by (auto simp: I_def)
    next
      case True
      with inv have i0: "0 \<le> i" and q: "failed s = failed s0 \<Longrightarrow> ?A w (take (nat i) xs)"
        by (auto simp: I_def)
      have "?A ?w2 (take (nat (i + batchSize opts)) xs)" if eq: "failed s1 = failed s0"
      proof -
        from eq f0 f1 have e1: "failed s = failed s0" and e2: "failed s1 = failed s" by auto
        have old: "?A w1 (take (nat i) xs)"
          using q [OF e1] archived_mono [OF zs] by (auto simp: list_all_iff)
        have "js_slice xs i (i + batchSize opts) = take (nat (batchSize opts)) (drop (nat i) xs)"
          using i0 lt True by (rule js_slice_window)
        with run_batch_success_archived [OF rb ok [OF e2]]
        have new: "?A w1 (take (nat (batchSize opts)) (drop (nat i) xs))" by simp
        have "take (nat (i + batchSize opts)) xs =
              take (nat i) xs @ take (nat (batchSize opts)) (drop (nat i) xs)"
          using i0 True by (simp add: nat_add_distrib take_add)
        with old new have "?A w1 (take (nat (i + batchSize opts)) xs)" by simp
        then show ?thesis by (auto simp: list_all_iff archived_def matching_def)
      qed
      with True i0 pre f0 f1 show ?thesis by (auto simp: I_def)
    qed
  qed
  then obtain i where ge: "?n \<le> i" and inv: "I (i, s', w')" by blast
  have "xs = []" if "i \<le> 0"
  proof -
    from that ge have "int (length xs) \<le> 0" by linarith
    then show ?thesis by simp
  qed
  with ge inv show ?thesis by (auto simp: I_def)
qed

subsection \<open>One record for each user and URL\<close>

lemma distinct_filter_key:
  "distinct (map f xs) \<Longrightarrow> length (filter (\<lambda>x. f x = k) xs) \<le> 1"
proof (induction xs)
  case Nil
  show ?case by simp
next
  case (Cons a xs)
  show ?case
  proof (cases "f a = k")
    case True
    with Cons.prems have "k \<notin> f ` set xs" by auto
    then have "filter (\<lambda>x. f x = k) xs = []" by (auto simp: filter_empty_conv)
    with True show ?thesis by simp
  next
    case False
    with Cons show ?thesis by simp
  qed
qed

lemma unique_pairs_matching: "unique_pairs w \<Longrightarrow> length (matching w userId u) \<le> 1"
proof -
  assume "unique_pairs w"
  then have "length (filter (\<lambda>a. (a_user_id a, a_url a) = (userId, u)) (archives w)) \<le> 1"
    unfolding unique_pairs_def by (rule distinct_filter_key)
  then show ?thesis by (simp add: matching_def)
qed

lemma select_single_none:
  assumes "unique_pairs w" and "\<not> select_error e w userId u" and "select_single e w userId u = None"
  shows "\<not> archived w userId u"
proof -
  from unique_pairs_matching [OF assms(1), of userId u] have "length (matching w userId u) \<le> 1" .
  with assms(2,3) have "matching w userId u = []"
    by (cases "matching w userId u") (auto simp: select_single_def split: list.splits)
  then show ?thesis by (simp add: archived_def)
qed

lemma unique_pairs_append:
  assumes "unique_pairs w" and "archives w' = archives w @ ys" and "length ys \<le> 1"
    and "\<forall>a \<in> set ys. a_user_id a = userId \<and> a_url a = u"
    and "ys \<noteq> [] \<longrightarrow> \<not> archived w userId u"
  shows "unique_pairs w'"
proof (cases ys)
  case Nil
  with assms(1,2) show ?thesis by (simp add: unique_pairs_def)
next
  case (Cons a as)
  with assms(3) have ys: "ys = [a]" by simp
  with assms(4) have k: "a_user_id a = userId" "a_url a = u" by simp_all
  from assms(5) ys have "\<not> archived w userId u" by simp
  then have "(userId, u) \<notin> set (map (\<lambda>a. (a_user_id a, a_url a)) (archives w))"
    by (auto simp: archived_iff)
  with assms(1,2) ys k show ?thesis by (simp add: unique_pairs_def)
qed

lemma settle_batch_unique:
  "settle_batch e opts userId ps w = (ss, w') \<Longrightarrow> unique_pairs w \<Longrightarrow>
   distinct (map (\<lambda>p. url (fst p)) ps) \<Longrightarrow>
   list_all (\<lambda>p. snd p = None \<longrightarrow> \<not> archived w userId (url (fst p))) ps \<Longrightarrow>
     unique_pairs w'"
proof (induction ps arbitrary: w ss w')
  case Nil
  then show ?case by simp
next
  case (Cons p ps)
  obtain it ex where p: "p = (it, ex)" by (cases p)
  obtain r w1 where r: "retry_loop_answered e opts userId it ex w = (r, w1)"
    by (cases "retry_loop_answered e opts userId it ex w") auto
  obtain ss1 w2 where b: "settle_batch e opts userId ps w1 = (ss1, w2)"
    by (cases "settle_batch e opts userId ps w1") auto
  from Cons.prems(1) p r b have w': "w' = w2" by simp
  from retry_loop_answered_effect [OF r] obtain ys where
    ys: "archives w1 = archives w @ ys" "length ys \<le> 1"
      "\<forall>a \<in> set ys. a_user_id a = userId \<and> a_url a = url it" "ex \<noteq> None \<longrightarrow> ys = []"
    by blast
  from Cons.prems(4) p have "ex = None \<longrightarrow> \<not> archived w userId (url it)" by simp
  with ys(4) have "ys \<noteq> [] \<longrightarrow> \<not> archived w userId (url it)" by blast
  from unique_pairs_append [OF Cons.prems(2) ys(1,2,3) this] have u1: "unique_pairs w1" .
  from Cons.prems(3) p have d: "distinct (map (\<lambda>p. url (fst p)) ps)"
    and ni: "url it \<notin> (\<lambda>p. url (fst p)) ` set ps" by simp_all
  from ni have other: "\<forall>q \<in> set ps. url (fst q) \<noteq> url it" by force
  have "list_all (\<lambda>p. snd p = None \<longrightarrow> \<not> archived w1 userId (url (fst p))) ps"
    unfolding list_all_iff
  proof (intro ballI impI)
    fix q assume q: "q \<in> set ps" and n: "snd q = None"
    from Cons.prems(4) q n have "\<not> archived w userId (url (fst q))" by (auto simp: list_all_iff)
    moreover from other q have "url (fst q) \<noteq> url it" by blast
    ultimately show "\<not> archived w1 userId (url (fst q))"
      using ys(1,3) by (auto simp: archived_iff)
  qed
  from Cons.IH [OF b u1 d this] w' show ?case by simp
qed

lemma run_batch_unique:
  assumes run: "run_batch e opts userId batch w = (ss, w')" and u: "unique_pairs w"
    and d: "distinct (map url batch)" and ns: "\<forall>u. \<not> select_error e w userId u"
  shows "unique_pairs w'"
proof -
  let ?ps = "map (\<lambda>urlData. (urlData, select_single e w userId (url urlData))) batch"
  have d': "distinct (map (\<lambda>p. url (fst p)) ?ps)" using d by (simp add: comp_def)
  have "list_all (\<lambda>p. snd p = None \<longrightarrow> \<not> archived w userId (url (fst p))) ?ps"
    using select_single_none [OF u] ns by (auto simp: list_all_iff)
  from settle_batch_unique [OF run [unfolded run_batch_def] u d' this] show ?thesis .
qed

lemma js_slice_distinct: "distinct (map f xs) \<Longrightarrow> distinct (map f (js_slice xs i j))"
  by (simp add: js_slice_def Let_def take_map [symmetric] drop_map [symmetric])

lemma batch_loop_unique:
  assumes ret: "batch_loop e opts userId xs (i0, s0, w0) = Some (Inr s', w')"
    and u: "unique_pairs w0" and d: "distinct (map url xs)"
    and ns: "\<forall>w u. \<not> select_error e w userId u"
  shows "unique_pairs w'"
proof -
  define I where "I = (\<lambda>st :: int \<times> summary \<times> world. case st of (i, s, w) \<Rightarrow> unique_pairs w)"
  have "\<exists>i. int (length xs) \<le> i \<and> I (i, s', w')"
  proof (rule batch_loop_rule [where I = I, OF ret])
    show "I (i0, s0, w0)" using u by (simp add: I_def)
  next
    fix i s w batchResults w1 s1
    assume inv: "I (i, s, w)"
      and rb: "run_batch e opts userId (js_slice xs i (i + batchSize opts)) w = (batchResults, w1)"
    from inv have uw: "unique_pairs w" by (simp add: I_def)
    have "unique_pairs w1"
      by (rule run_batch_unique [OF rb uw js_slice_distinct [OF d]]) (use ns in simp)
    then show "I (i + batchSize opts, s1,
           if i + batchSize opts < int (length xs) \<and> 0 < delayBetweenBatches opts
           then w1\<lparr>sleeps := sleeps w1 @ [delayBetweenBatches opts]\<rparr> else w1)"
      by (simp add: I_def unique_pairs_def)
  qed
  then show ?thesis by (auto simp: I_def)
qed

lemma checkForDuplicates_sublist:
  "checkForDuplicates e w urls userId = (newUrls, dups) \<Longrightarrow> \<exists>P. newUrls = filter P urls"
proof (cases "dup_scan e w userId (map url urls) 0 []")
  case None
  then show "checkForDuplicates e w urls userId = (newUrls, dups) \<Longrightarrow> ?thesis"
    by (auto simp: checkForDuplicates_def intro: exI [of _ "\<lambda>x. True"])
next
  case (Some ex)
  then show "checkForDuplicates e w urls userId = (newUrls, dups) \<Longrightarrow> ?thesis"
    by (auto simp: checkForDuplicates_def)
qed

lemma import_keeps_unique:
  assumes run: "processPocketImport e w urls userId opts = Some (Inr s, w')"
    and ns: "\<forall>w u. \<not> select_error e w userId u"
    and d: "distinct (map url urls)" and u: "unique_pairs w"
  shows "unique_pairs w'"
proof -
  obtain newUrls dups where cd: "checkForDuplicates e w urls userId = (newUrls, dups)"
    by (cases "checkForDuplicates e w urls userId") auto
  from checkForDuplicates_sublist [OF cd] obtain P where "newUrls = filter P urls" by blast
  with d have dn: "distinct (map url newUrls)" by (simp add: distinct_map_filter)
  let ?s0 = "\<lparr>total = length urls, successful = 0, failed = 0, results = [],
               duplicates = length dups, skipped = length dups\<rparr>"
  from run cd have "batch_loop e opts userId newUrls (0, ?s0, w) = Some (Inr s, w')"
    by (simp add: processPocketImport_def)
  from batch_loop_unique [OF this u dn ns] show ?thesis .
qed

text \<open>
  Claim C1 says that a second import of the same table for the same user creates no
  ArchiveRecord and finds every row a duplicate (\<open>duplicates = total\<close>), and that no
  record is ever created twice for the same user and URL. A row whose extraction failed
  in the first run is not archived, so the second run does not count it as a duplicate and
  attempts it again: with an extractor that fails once and then succeeds, the second run
  creates the record. A table that holds the same new URL twice has both rows in one
  batch, both existence queries are answered before either insert, and two records are
  created. When the duplicate check and the existence query both fail, an archived page
  is archived a second time. When only the duplicate check fails, the archived page is
  skipped by \<open>archiveSinglePage\<close> and \<open>duplicates\<close> stays 0.
\<close>

theorem import_twice_counterexample:
  "processPocketImport env_flaky world_empty [item_b] ''u'' opts_default =
     Some (Inr \<lparr>total = 1, successful = 0, failed = 1,
                 results = [Failure ''http://b'' ''Failed to extract content: Fallback extraction failed: HTTP 500''],
                 duplicates = 0, skipped = 0\<rparr>,
           \<lparr>archives = [], next_id = 0, extractions = [''http://b''], sleeps = []\<rparr>) \<and>
   processPocketImport env_flaky
       \<lparr>archives = [], next_id = 0, extractions = [''http://b''], sleeps = []\<rparr> [item_b] ''u'' opts_default =
     Some (Inr \<lparr>total = 1, successful = 1, failed = 0,
                 results = [Archived \<lparr>ref_id = 0, ref_url = ''http://b'', ref_title = ''T'', ref_description = ''D''\<rparr>],
                 duplicates = 0, skipped = 0\<rparr>,
           \<lparr>archives = [\<lparr>a_id = 0, a_user_id = ''u'', a_url = ''http://b'', a_title = ''T'', a_description = ''D'',
                  a_html = ''H'', a_text = ''X'', a_markdown = Some ''M'', a_extraction_method = ''firecrawl'',
                  a_word_count = 1, a_reading_time = 1, a_tags = []\<rparr>],
             next_id = 1, extractions = [''http://b'', ''http://b''], sleeps = []\<rparr>) \<and>
   processPocketImport env_ok world_empty [item_b, item_b] ''u'' opts_default =
     Some (Inr \<lparr>total = 2, successful = 2, failed = 0,
                 results = [Archived \<lparr>ref_id = 0, ref_url = ''http://b'', ref_title = ''T'', ref_description = ''D''\<rparr>,
                            Archived \<lparr>ref_id = 1, ref_url = ''http://b'', ref_title = ''T'', ref_description = ''D''\<rparr>],
                 duplicates = 0, skipped = 0\<rparr>,
           \<lparr>archives = [\<lparr>a_id = 0, a_user_id = ''u'', a_url = ''http://b'', a_title = ''T'', a_description = ''D'',
                  a_html = ''H'', a_text = ''X'', a_markdown = Some ''M'', a_extraction_method = ''firecrawl'',
                  a_word_count = 1, a_reading_time = 1, a_tags = []\<rparr>,
               \<lparr>a_id = 1, a_user_id = ''u'', a_url = ''http://b'', a_title = ''T'', a_description = ''D'',
                  a_html = ''H'', a_text = ''X'', a_markdown = Some ''M'', a_extraction_method = ''firecrawl'',
                  a_word_count = 1, a_reading_time = 1, a_tags = []\<rparr>],
             next_id = 2, extractions = [''http://b'', ''http://b''], sleeps = []\<rparr>) \<and>
   processPocketImport env_checks_fail world_a [item_a] ''u'' opts_default =
     Some (Inr \<lparr>total = 1, successful = 1, failed = 0,
                 results = [Archived \<lparr>ref_id = 1, ref_url = ''http://a'', ref_title = ''T'', ref_description = ''D''\<rparr>],
                 duplicates = 0, skipped = 0\<rparr>,
           \<lparr>archives = [row_a,
               \<lparr>a_id = 1, a_user_id = ''u'', a_url = ''http://a'', a_title = ''T'', a_description = ''D'',
                  a_html = ''H'', a_text = ''X'', a_markdown = Some ''M'', a_extraction_method = ''firecrawl'',
                  a_word_count = 1, a_reading_time = 1, a_tags = []\<rparr>],
             next_id = 2, extractions = [''http://a''], sleeps = []\<rparr>) \<and>
   processPocketImport env_duplicate_check_throws world_a [item_a] ''u'' opts_default =
     Some (Inr \<lparr>total = 1, successful = 0, failed = 0,
                 results = [Skipped \<lparr>ref_id = 0, ref_url = ''http://a'', ref_title = ''A'',
                                      ref_description = ''Already archived''\<rparr>],
                 duplicates = 0, skipped = 1\<rparr>, world_a)"
  by code_simp

lemma second_import_all_duplicates:
  assumes run1: "processPocketImport e w urls userId opts = Some (Inr s1, w1)"
    and nofail: "failed s1 = 0"
    and nf: "\<forall>batch. in_query_fault e w1 userId batch = NoFault"
  shows "processPocketImport e w1 urls userId opts' =
     Some (Inr \<lparr>total = length urls, successful = 0, failed = 0, results = [],
                 duplicates = length urls, skipped = length urls\<rparr>, w1)"
proof -
  obtain newUrls dups where cd: "checkForDuplicates e w urls userId = (newUrls, dups)"
    by (cases "checkForDuplicates e w urls userId") auto
  let ?s0 = "\<lparr>total = length urls, successful = 0, failed = 0, results = [],
               duplicates = length dups, skipped = length dups\<rparr>"
  from run1 cd have "batch_loop e opts userId newUrls (0, ?s0, w) = Some (Inr s1, w1)"
    by (simp add: processPocketImport_def)
  from batch_loop_archived [OF this] nofail
  obtain ys where ys: "archives w1 = archives w @ ys"
    and new: "list_all (\<lambda>it. archived w1 userId (url it)) newUrls" by auto
  from checkForDuplicates_sound [OF cd]
  have "list_all (\<lambda>it. archived w userId (url it)) dups" and un: "set urls = set newUrls \<union> set dups"
    by auto
  with archived_mono [OF ys] have "list_all (\<lambda>it. archived w1 userId (url it)) dups"
    by (auto simp: list_all_iff)
  with new un have "list_all (\<lambda>it. archived w1 userId (url it)) urls"
    by (auto simp: list_all_iff)
  from checkForDuplicates_all [OF nf this]
  show ?thesis
    by (simp add: processPocketImport_def) (subst batch_loop.simps, simp)
qed

text \<open>
  Claim C1, amended. When the first run returned with no failed item and the queries of
  the duplicate check of the second run succeed, the second run of the same table for the
  same user reports \<open>duplicates = skipped = total\<close>, processes no item and leaves the
  store as it was: no ArchiveRecord is created. When the URLs of the table are pairwise
  different, no existence query fails and the store holds at most one record for each
  user and URL before a run, it holds at most one for each after the run.
\<close>

theorem import_twice_idempotent:
  "(processPocketImport e w urls userId opts = Some (Inr s1, w1) \<and> failed s1 = 0 \<and>
    (\<forall>batch. in_query_fault e w1 userId batch = NoFault) \<longrightarrow>
      processPocketImport e w1 urls userId opts' =
        Some (Inr \<lparr>total = length urls, successful = 0, failed = 0, results = [],
                    duplicates = length urls, skipped = length urls\<rparr>, w1)) \<and>
   (processPocketImport e w urls userId opts = Some (Inr s1, w1) \<and>
    (\<forall>w u. \<not> select_error e w userId u) \<and> distinct (map url urls) \<and> unique_pairs w \<longrightarrow>
      unique_pairs w1)"
proof (intro conjI impI)
  assume "processPocketImport e w urls userId opts = Some (Inr s1, w1) \<and> failed s1 = 0 \<and>
    (\<forall>batch. in_query_fault e w1 userId batch = NoFault)"
  then show "processPocketImport e w1 urls userId opts' =
        Some (Inr \<lparr>total = length urls, successful = 0, failed = 0, results = [],
                    duplicates = length urls, skipped = length urls\<rparr>, w1)"
    using second_import_all_duplicates by blast
next
  assume "processPocketImport e w urls userId opts = Some (Inr s1, w1) \<and>
    (\<forall>w u. \<not> select_error e w userId u) \<and> distinct (map url urls) \<and> unique_pairs w"
  then show "unique_pairs w1"
    using import_keeps_unique [of e w urls userId opts s1 w1] by blast
qed

theorem import_twice_idempotent_witness:
  "distinct (map url [item_a, item_b, item_c]) \<and> unique_pairs world_a \<and>
   (\<exists>s1 w1. processPocketImport env_ok world_a [item_a, item_b, item_c] ''u'' opts_default = Some (Inr s1, w1) \<and>
     failed s1 = 0 \<and>
     processPocketImport env_ok w1 [item_a, item_b, item_c] ''u'' opts_default =
       Some (Inr \<lparr>total = 3, successful = 0, failed = 0, results = [], duplicates = 3, skipped = 3\<rparr>, w1) \<and>
     unique_pairs w1)"
proof (intro conjI)
  have nf: "\<forall>batch. in_query_fault env_ok w1 ''u'' batch = NoFault" for w1
    by (simp add: env_ok_def)
  have ns: "\<forall>w u. \<not> select_error env_ok w ''u'' u" by (simp add: env_ok_def)
  let ?s1 = "\<lparr>total = 3, successful = 2, failed = 0,
                 results = [Archived \<lparr>ref_id = 1, ref_url = ''http://b'', ref_title = ''T'', ref_description = ''D''\<rparr>,
                            Archived \<lparr>ref_id = 2, ref_url = ''http://c'', ref_title = ''T'', ref_description = ''D''\<rparr>],
                 duplicates = 1, skipped = 1\<rparr>"
  let ?w1 = "\<lparr>archives = [row_a,
               \<lparr>a_id = 1, a_user_id = ''u'', a_url = ''http://b'', a_title = ''T'', a_description = ''D'',
                  a_html = ''H'', a_text = ''X'', a_markdown = Some ''M'', a_extraction_method = ''firecrawl'',
                  a_word_count = 1, a_reading_time = 1, a_tags = []\<rparr>,
               \<lparr>a_id = 2, a_user_id = ''u'', a_url = ''http://c'', a_title = ''T'', a_description = ''D'',
                  a_html = ''H'', a_text = ''X'', a_markdown = Some ''M'', a_extraction_method = ''firecrawl'',
                  a_word_count = 1, a_reading_time = 1, a_tags = []\<rparr>],
             next_id = 3, extractions = [''http://b'', ''http://c''], sleeps = []\<rparr>"
  show d: "distinct (map url [item_a, item_b, item_c])"
    by (simp add: item_a_def item_b_def item_c_def)
  show u: "unique_pairs world_a" by (simp add: unique_pairs_def world_a_def)
  have r: "processPocketImport env_ok world_a [item_a, item_b, item_c] ''u'' opts_default = Some (Inr ?s1, ?w1)"
    by (rule first_run_ok)
  have f: "failed ?s1 = 0" by simp
  have "processPocketImport env_ok ?w1 [item_a, item_b, item_c] ''u'' opts_default =
        Some (Inr \<lparr>total = length [item_a, item_b, item_c], successful = 0, failed = 0, results = [],
                    duplicates = length [item_a, item_b, item_c],
                    skipped = length [item_a, item_b, item_c]\<rparr>, ?w1)"
    using conjunct1 [OF import_twice_idempotent, of env_ok world_a "[item_a, item_b, item_c]" "''u''"
        opts_default ?s1 ?w1 opts_default] r f nf
    by blast
  then have second: "processPocketImport env_ok ?w1 [item_a, item_b, item_c] ''u'' opts_default =
       Some (Inr \<lparr>total = 3, successful = 0, failed = 0, results = [], duplicates = 3, skipped = 3\<rparr>, ?w1)"
    by simp
  have "unique_pairs ?w1"
    using conjunct2 [OF import_twice_idempotent, of env_ok world_a "[item_a, item_b, item_c]" "''u''"
        opts_default ?s1 ?w1] r ns d u
    by blast
  with r f second
  show "\<exists>s1 w1. processPocketImport env_ok world_a [item_a, item_b, item_c] ''u'' opts_default = Some (Inr s1, w1) \<and>
     failed s1 = 0 \<and>
     processPocketImport env_ok w1 [item_a, item_b, item_c] ''u'' opts_default =
       Some (Inr \<lparr>total = 3, successful = 0, failed = 0, results = [], duplicates = 3, skipped = 3\<rparr>, w1) \<and>
     unique_pairs w1"
    by blast
qed

section \<open>Properties of the shared-embeddings pipeline\<close>

lemma list_ex_map: "list_ex P (map f xs) = list_ex (\<lambda>x. P (f x)) xs"
  by (induction xs) simp_all

lemma same_link_tags: "same_link a j (l\<lparr>uc_tags := t\<rparr>) = same_link a j l"
  by (simp add: same_link_def)

lemma linked_cong: "user_content st' = user_content st \<Longrightarrow> linked st' a j = linked st a j"
  by (simp add: linked_def)

lemma link_content_effect:
  assumes "j \<noteq> 0"
  shows "\<exists>st'. link_content env a (ids, st) j = (ids @ [j], st') \<and>
         content_embeddings st' = content_embeddings st \<and> embed_calls st' = embed_calls st \<and>
         next_content_id st' = next_content_id st \<and>
         (\<not> link_error env st (a_user_id a) j (a_id a) \<longrightarrow> linked st' a j) \<and>
         (\<forall>a' j'. linked st a' j' \<longrightarrow> linked st' a' j')"
proof (cases "link_error env st (a_user_id a) j (a_id a)")
  case True
  with assms show ?thesis by (simp add: link_content_def)
next
  case False
  show ?thesis
  proof (cases "list_ex (same_link a j) (user_content st)")
    case True
    let ?f = "\<lambda>l. if same_link a j l then l\<lparr>uc_tags := a_tags a\<rparr> else l"
    have keep: "same_link a' j' (?f l) = same_link a' j' l" for a' j' l
      by (simp add: same_link_tags)
    have "linked (st\<lparr>user_content := map ?f (user_content st)\<rparr>) a' j' = linked st a' j'" for a' j'
    proof -
      have "list_ex (same_link a' j') (map ?f (user_content st)) =
            list_ex (\<lambda>l. same_link a' j' (?f l)) (user_content st)"
        by (rule list_ex_map)
      also have "\<dots> = list_ex (same_link a' j') (user_content st)"
        by (simp only: keep)
      finally show ?thesis by (simp add: linked_def)
    qed
    with True False assms show ?thesis
      by (simp add: link_content_def linked_def)
  next
    case nolink: False
    have "same_link a j \<lparr>uc_user_id = a_user_id a, uc_content_id = j, uc_archive_id = a_id a,
                   uc_tags = a_tags a\<rparr>" by (simp add: same_link_def)
    with nolink False assms show ?thesis
      by (simp add: link_content_def linked_def)
  qed
qed

lemma rows_for_cong:
  "content_embeddings st' = content_embeddings st \<Longrightarrow> rows_for st' h i = rows_for st h i"
  by (simp add: rows_for_def)

lemma unique_content_cong:
  "content_embeddings st' = content_embeddings st \<Longrightarrow> unique_content st' = unique_content st"
  by (simp add: unique_content_def)

lemma truthy_ids_cong:
  "content_embeddings st' = content_embeddings st \<Longrightarrow> next_content_id st' = next_content_id st \<Longrightarrow>
     truthy_ids st' = truthy_ids st"
  by (simp add: truthy_ids_def)

lemma unique_rows_for: "unique_content st \<Longrightarrow> length (rows_for st h i) \<le> 1"
proof -
  assume "unique_content st"
  then have "length (filter (\<lambda>r. (c_hash r, c_chunk_index r) = (h, i)) (content_embeddings st)) \<le> 1"
    unfolding unique_content_def by (rule distinct_filter_key)
  then show ?thesis by (simp add: rows_for_def)
qed

lemma rows_for_stable:
  assumes "unique_content st'" and "content_embeddings st' = content_embeddings st @ ys"
    and "rows_for st h i = [r]"
  shows "rows_for st' h i = [r]"
proof -
  have "rows_for st' h i = [r] @ filter (\<lambda>r. c_hash r = h \<and> c_chunk_index r = i) ys"
    using assms(2,3) by (simp add: rows_for_def)
  with unique_rows_for [OF assms(1), of h i] show ?thesis by simp
qed

lemma rows_for_truthy:
  assumes "truthy_ids st" and "rows_for st h i = [r]"
  shows "c_id r \<noteq> 0"
proof -
  have "r \<in> set (rows_for st h i)" using assms(2) by simp
  then have "r \<in> set (content_embeddings st)" by (simp add: rows_for_def)
  with assms(1) show ?thesis by (simp add: truthy_ids_def list_all_iff)
qed

lemma get_or_create_content_effect:
  assumes "get_or_create_content st h u t i c v = (j, st')" and "unique_content st"
    and "truthy_ids st"
  shows "unique_content st' \<and> truthy_ids st' \<and> j \<noteq> 0 \<and>
         (\<exists>ys. content_embeddings st' = content_embeddings st @ ys) \<and>
         (\<exists>r. rows_for st' h i = [r] \<and> c_id r = j) \<and> embed_calls st' = embed_calls st \<and>
         user_content st' = user_content st"
proof (cases "rows_for st h i")
  case Nil
  then have "(h, i) \<notin> set (map (\<lambda>r. (c_hash r, c_chunk_index r)) (content_embeddings st))"
    by (auto simp: rows_for_def filter_empty_conv)
  with assms Nil show ?thesis
    by (auto simp: get_or_create_content_def unique_content_def rows_for_def truthy_ids_def)
next
  case (Cons r rs)
  with unique_rows_for [OF assms(2), of h i] have rs: "rs = []" by simp
  with Cons have "rows_for st h i = [r]" by simp
  from rows_for_truthy [OF assms(3) this] have "c_id r \<noteq> 0" .
  with assms Cons rs show ?thesis
    by (auto simp: get_or_create_content_def)
qed

lemma process_chunk_stores:
  assumes cfg: "genAI env" and prov: "\<forall>st t. embedContent env st t \<noteq> None"
    and nl: "\<forall>st h i. \<not> lookup_error env st h i" and nr: "\<forall>st h i. \<not> rpc_error env st h i"
    and nk: "\<forall>st u c i. \<not> link_error env st u c i"
    and uniq: "unique_content st" and tr: "truthy_ids st"
  shows "\<exists>j st'. process_chunk env a (ids, st) ch = (ids @ [j], st') \<and> unique_content st' \<and>
           truthy_ids st' \<and>
           (\<exists>ys. content_embeddings st' = content_embeddings st @ ys) \<and>
           stored_as env (a_url a) st' ch j \<and> linked st' a j \<and>
           (\<forall>a' j'. linked st a' j' \<longrightarrow> linked st' a' j')"
proof (cases "lookup_content env st (hashContent env (a_url a) (content ch)) (index ch)")
  case (Some j)
  with nl obtain r where r: "rows_for st (hashContent env (a_url a) (content ch)) (index ch) = [r]"
    "c_id r = j"
    by (auto simp: lookup_content_def split: list.splits if_splits)
  from rows_for_truthy [OF tr r(1)] r(2) have j0: "j \<noteq> 0" by simp
  from link_content_effect [OF j0, of env a ids st] nk obtain st' where
    l: "link_content env a (ids, st) j = (ids @ [j], st')"
    and c: "content_embeddings st' = content_embeddings st"
    and n: "next_content_id st' = next_content_id st"
    and lk: "linked st' a j" and mono: "\<forall>a' j'. linked st a' j' \<longrightarrow> linked st' a' j'" by blast
  from Some l have "process_chunk env a (ids, st) ch = (ids @ [j], st')"
    by (simp add: process_chunk_def Let_def)
  moreover have "unique_content st'" using uniq unique_content_cong [OF c] by simp
  moreover have "truthy_ids st'" using tr truthy_ids_cong [OF c n] by simp
  moreover have "stored_as env (a_url a) st' ch j"
    using r rows_for_cong [OF c] by (simp add: stored_as_def)
  ultimately show ?thesis using c lk mono by auto
next
  case None
  let ?h = "hashContent env (a_url a) (content ch)"
  let ?st1 = "st\<lparr>embed_calls := embed_calls st @ [take 10000 (content ch)]\<rparr>"
  from prov obtain v where v: "embedContent env st (take 10000 (content ch)) = Some v" by auto
  with cfg have g: "generateEmbedding env st (content ch) = (Some v, ?st1)"
    by (simp add: generateEmbedding_def)
  obtain j st2 where goc: "get_or_create_content ?st1 ?h (a_url a) (a_title a) (index ch) (content ch) v = (j, st2)"
    by (cases "get_or_create_content ?st1 ?h (a_url a) (a_title a) (index ch) (content ch) v") auto
  have u1: "unique_content ?st1" using uniq by (simp add: unique_content_def)
  have t1: "truthy_ids ?st1" using tr by (simp add: truthy_ids_def)
  from get_or_create_content_effect [OF goc u1 t1]
  have u2: "unique_content st2" and t2: "truthy_ids st2" and j0: "j \<noteq> 0"
    and ext: "\<exists>ys. content_embeddings st2 = content_embeddings st @ ys"
    and row: "\<exists>r. rows_for st2 ?h (index ch) = [r] \<and> c_id r = j"
    and uc: "user_content st2 = user_content st" by auto
  from link_content_effect [OF j0, of env a ids st2] nk obtain st' where
    l: "link_content env a (ids, st2) j = (ids @ [j], st')"
    and c: "content_embeddings st' = content_embeddings st2"
    and n: "next_content_id st' = next_content_id st2"
    and lk: "linked st' a j" and mono: "\<forall>a' j'. linked st2 a' j' \<longrightarrow> linked st' a' j'" by blast
  from None g nr goc l have "process_chunk env a (ids, st) ch = (ids @ [j], st')"
    by (simp add: process_chunk_def Let_def)
  moreover have "unique_content st'" using u2 unique_content_cong [OF c] by simp
  moreover have "truthy_ids st'" using t2 truthy_ids_cong [OF c n] by simp
  moreover have "stored_as env (a_url a) st' ch j"
    using row rows_for_cong [OF c] by (simp add: stored_as_def)
  moreover have "\<forall>a' j'. linked st a' j' \<longrightarrow> linked st' a' j'"
    using mono linked_cong [OF uc] by simp
  ultimately show ?thesis using c ext lk by auto
qed

lemma stored_as_stable:
  assumes "unique_content st'" and "content_embeddings st' = content_embeddings st @ ys"
    and "stored_as env u st ch j"
  shows "stored_as env u st' ch j"
  using assms rows_for_stable unfolding stored_as_def by blast

lemma first_run_stores:
  assumes cfg: "genAI env" and prov: "\<forall>st t. embedContent env st t \<noteq> None"
    and nl: "\<forall>st h i. \<not> lookup_error env st h i" and nr: "\<forall>st h i. \<not> rpc_error env st h i"
    and nk: "\<forall>st u c i. \<not> link_error env st u c i"
  shows "unique_content st \<Longrightarrow> truthy_ids st \<Longrightarrow>
     foldl (process_chunk env a) (ids, st) cs = (ids', st') \<Longrightarrow>
     unique_content st' \<and> truthy_ids st' \<and>
     (\<exists>ys. content_embeddings st' = content_embeddings st @ ys) \<and>
     (\<forall>a' j'. linked st a' j' \<longrightarrow> linked st' a' j') \<and>
     (\<exists>js. ids' = ids @ js \<and> list_all2 (stored_as env (a_url a) st') cs js \<and>
           list_all (linked st' a) js)"
proof (induction cs arbitrary: ids st)
  case Nil
  then show ?case by simp
next
  case (Cons ch cs)
  from process_chunk_stores [OF cfg prov nl nr nk Cons.prems(1,2), of a ids ch]
  obtain j st1 where p: "process_chunk env a (ids, st) ch = (ids @ [j], st1)"
    and u1: "unique_content st1" and t1: "truthy_ids st1"
    and e1: "\<exists>ys. content_embeddings st1 = content_embeddings st @ ys"
    and s1: "stored_as env (a_url a) st1 ch j" and l1: "linked st1 a j"
    and m1: "\<forall>a' j'. linked st a' j' \<longrightarrow> linked st1 a' j'" by blast
  from Cons.prems(3) p have "foldl (process_chunk env a) (ids @ [j], st1) cs = (ids', st')" by simp
  from Cons.IH [OF u1 t1 this] obtain js where u': "unique_content st'" and t': "truthy_ids st'"
    and e': "\<exists>ys. content_embeddings st' = content_embeddings st1 @ ys"
    and m': "\<forall>a' j'. linked st1 a' j' \<longrightarrow> linked st' a' j'"
    and js: "ids' = (ids @ [j]) @ js" and all: "list_all2 (stored_as env (a_url a) st') cs js"
    and lall: "list_all (linked st' a) js" by blast
  from e' obtain ys where ys: "content_embeddings st' = content_embeddings st1 @ ys" by blast
  have "stored_as env (a_url a) st' ch j" by (rule stored_as_stable [OF u' ys s1])
  with all have "list_all2 (stored_as env (a_url a) st') (ch # cs) (j # js)" by simp
  moreover have "list_all (linked st' a) (j # js)" using lall l1 m' by simp
  moreover have "ids' = ids @ (j # js)" using js by simp
  moreover have "\<exists>ys. content_embeddings st' = content_embeddings st @ ys" using e1 ys by auto
  moreover have "\<forall>a' j'. linked st a' j' \<longrightarrow> linked st' a' j'" using m1 m' by blast
  ultimately show ?case using u' t' by blast
qed

lemma process_chunk_reuses:
  assumes "lookup_content env st (hashContent env (a_url a) (content ch)) (index ch) = Some j"
    and "j \<noteq> 0"
  shows "\<exists>st'. process_chunk env a (ids, st) ch = (ids @ [j], st') \<and>
           content_embeddings st' = content_embeddings st \<and> embed_calls st' = embed_calls st \<and>
           next_content_id st' = next_content_id st \<and>
           (\<not> link_error env st (a_user_id a) j (a_id a) \<longrightarrow> linked st' a j) \<and>
           (\<forall>a' j'. linked st a' j' \<longrightarrow> linked st' a' j')"
  using assms(1) link_content_effect [OF assms(2), of env a ids st]
  by (simp add: process_chunk_def Let_def)

lemma second_run_reuses:
  assumes nl: "\<forall>st h i. \<not> lookup_error env st h i" and nk: "\<forall>st u c i. \<not> link_error env st u c i"
  shows "truthy_ids st \<Longrightarrow> list_all2 (stored_as env (a_url b) st) cs js \<Longrightarrow>
     \<exists>st'. foldl (process_chunk env b) (ids, st) cs = (ids @ js, st') \<and>
           content_embeddings st' = content_embeddings st \<and> embed_calls st' = embed_calls st \<and>
           (\<forall>a' j'. linked st a' j' \<longrightarrow> linked st' a' j') \<and> list_all (linked st' b) js"
proof (induction cs arbitrary: ids st js)
  case Nil
  then show ?case by simp
next
  case (Cons ch cs)
  from Cons.prems(2) obtain j js' where js: "js = j # js'" and s: "stored_as env (a_url b) st ch j"
    and rest: "list_all2 (stored_as env (a_url b) st) cs js'"
    by (auto simp: list_all2_Cons1)
  from s obtain r where r: "rows_for st (hashContent env (a_url b) (content ch)) (index ch) = [r]"
    "c_id r = j" by (auto simp: stored_as_def)
  from rows_for_truthy [OF Cons.prems(1) r(1)] r(2) have j0: "j \<noteq> 0" by simp
  from r nl have "lookup_content env st (hashContent env (a_url b) (content ch)) (index ch) = Some j"
    by (auto simp: lookup_content_def)
  from process_chunk_reuses [OF this j0, of ids] nk obtain st1 where
    p: "process_chunk env b (ids, st) ch = (ids @ [j], st1)"
    and c: "content_embeddings st1 = content_embeddings st" and e: "embed_calls st1 = embed_calls st"
    and n: "next_content_id st1 = next_content_id st"
    and l1: "linked st1 b j" and m1: "\<forall>a' j'. linked st a' j' \<longrightarrow> linked st1 a' j'"
    by blast
  have "stored_as env (a_url b) st1 = stored_as env (a_url b) st"
    using c by (simp add: stored_as_def rows_for_def fun_eq_iff)
  with rest have r1: "list_all2 (stored_as env (a_url b) st1) cs js'" by simp
  have t1: "truthy_ids st1" using Cons.prems(1) truthy_ids_cong [OF c n] by simp
  from Cons.IH [OF t1 r1, of "ids @ [j]"] obtain st' where
    f: "foldl (process_chunk env b) (ids @ [j], st1) cs = ((ids @ [j]) @ js', st')"
    and c': "content_embeddings st' = content_embeddings st1" and e': "embed_calls st' = embed_calls st1"
    and m': "\<forall>a' j'. linked st1 a' j' \<longrightarrow> linked st' a' j'" and l': "list_all (linked st' b) js'"
    by blast
  have "list_all (linked st' b) (j # js')" using l1 m' l' by simp
  moreover have "\<forall>a' j'. linked st a' j' \<longrightarrow> linked st' a' j'" using m1 m' by blast
  ultimately show ?case using p f c c' e e' js by simp
qed

lemma two_users_reuse:
  assumes cfg: "genAI env" and prov: "\<forall>st t. embedContent env st t \<noteq> None"
    and nl: "\<forall>st h i. \<not> lookup_error env st h i" and nr: "\<forall>st h i. \<not> rpc_error env st h i"
    and nk: "\<forall>st u c i. \<not> link_error env st u c i"
    and uniq: "unique_content st" and tr: "truthy_ids st"
    and same: "a_url b = a_url a" "fullText b = fullText a"
    and runA: "processArchiveWithSharedEmbeddings env st a = Some (Some idsA, stA)"
  shows "\<exists>cs stB. chunkText (fullText a) 1500 300 = Some cs \<and>
           list_all2 (stored_as env (a_url a) stA) cs idsA \<and> list_all (linked stA a) idsA \<and>
           processArchiveWithSharedEmbeddings env stA b = Some (Some idsA, stB) \<and>
           embed_calls stB = embed_calls stA \<and> content_embeddings stB = content_embeddings stA \<and>
           list_all (linked stB a) idsA \<and> list_all (linked stB b) idsA"
proof -
  from runA cfg obtain cs where cs: "chunkText (fullText a) 1500 300 = Some cs"
    and f: "foldl (process_chunk env a) ([], st) cs = (idsA, stA)"
    by (auto simp: processArchiveWithSharedEmbeddings_def split: option.splits prod.splits)
  from first_run_stores [OF cfg prov nl nr nk uniq tr f]
  have all: "list_all2 (stored_as env (a_url a) stA) cs idsA" and tA: "truthy_ids stA"
    and lA: "list_all (linked stA a) idsA" by auto
  from all same(1) have "list_all2 (stored_as env (a_url b) stA) cs idsA" by simp
  from second_run_reuses [OF nl nk tA this, of "[]"] obtain stB where
    fB: "foldl (process_chunk env b) ([], stA) cs = (idsA, stB)"
    and cB: "content_embeddings stB = content_embeddings stA" and eB: "embed_calls stB = embed_calls stA"
    and mB: "\<forall>a' j'. linked stA a' j' \<longrightarrow> linked stB a' j'" and lB: "list_all (linked stB b) idsA"
    by auto
  have rB: "processArchiveWithSharedEmbeddings env stA b = Some (Some idsA, stB)"
    using cfg cs same(2) fB by (simp add: processArchiveWithSharedEmbeddings_def)
  have "list_all (linked stB a) idsA" using lA mB by (simp add: list_all_iff)
  with cs all lA rB eB cB lB show ?thesis by blast
qed

lemma process_chunk_unavailable:
  assumes "genAI env"
    and "lookup_content env st (hashContent env (a_url a) (content ch)) (index ch) = None"
    and "embedContent env st (take 10000 (content ch)) = None"
  shows "process_chunk env a (ids, st) ch =
           (ids, st\<lparr>embed_calls := embed_calls st @ [take 10000 (content ch)]\<rparr>)"
  using assms by (simp add: process_chunk_def generateEmbedding_def Let_def)

lemma chunk_x_text: "chunkText (fullText (archive_of i u)) 1500 300 = Some [chunk_x]"
proof -
  have "fullText (archive_of i u) = fullText (archive_of 7 ''alice'')"
    by (simp add: fullText_def archive_of_def)
  moreover have "chunkText (fullText (archive_of 7 ''alice'')) 1500 300 = Some [chunk_x]"
    by code_simp
  ultimately show ?thesis by simp
qed

lemmas embed_eval =
  processArchiveWithSharedEmbeddings_def process_chunk_def lookup_content_def rows_for_def
  generateEmbedding_def get_or_create_content_def link_content_def same_link_def hashContent_def
  eenv_ok_def eenv_unavailable_def eenv_rpc_fails_def eenv_lookup_fails_def estore_empty_def
  estore_alice_def estore_twin_def estore_zero_id_def archive_of_def chunk_x_def row_x_def Let_def

lemma alice_first_run:
  "processArchiveWithSharedEmbeddings eenv_ok estore_empty (archive_of 7 ''alice'') =
     Some (Some [1], estore_alice)"
  by (simp add: processArchiveWithSharedEmbeddings_def chunk_x_text) (simp add: embed_eval)

text \<open>
  Claim C2 says that a chunk whose hash and index are in the content store is linked
  without a call of the embedding provider, and that across all users the provider is
  invoked at most once for each hash and index. A chunk is stored only when the provider
  answers and the store call succeeds: with an unavailable provider, and likewise with a
  failing \<open>get_or_create_content\<close>, two archives of the same content send the same
  chunk to the provider twice. A chunk that is in the store is found only when the
  look-up succeeds and returns one row: when that query fails, and when the store holds
  two rows for the hash and index, the provider is called for a chunk that is stored. A
  row whose id is \<open>0\<close> is found, and then neither returned nor linked, since
  \<open>if (contentId)\<close> is false for it.
\<close>

theorem provider_unavailable_invoked_twice_counterexample:
  "processArchiveWithSharedEmbeddings eenv_unavailable estore_empty (archive_of 7 ''alice'') =
     Some (Some [], estore_empty\<lparr>embed_calls := [content chunk_x]\<rparr>) \<and>
   processArchiveWithSharedEmbeddings eenv_unavailable (estore_empty\<lparr>embed_calls := [content chunk_x]\<rparr>)
       (archive_of 8 ''bob'') =
     Some (Some [], estore_empty\<lparr>embed_calls := [content chunk_x, content chunk_x]\<rparr>) \<and>
   processArchiveWithSharedEmbeddings eenv_rpc_fails estore_empty (archive_of 7 ''alice'') =
     Some (Some [], estore_empty\<lparr>embed_calls := [content chunk_x]\<rparr>) \<and>
   processArchiveWithSharedEmbeddings eenv_rpc_fails (estore_empty\<lparr>embed_calls := [content chunk_x]\<rparr>)
       (archive_of 8 ''bob'') =
     Some (Some [], estore_empty\<lparr>embed_calls := [content chunk_x, content chunk_x]\<rparr>) \<and>
   rows_for estore_alice (hashContent eenv_lookup_fails ''http://x'' (content chunk_x)) (index chunk_x) = [row_x] \<and>
   processArchiveWithSharedEmbeddings eenv_lookup_fails estore_alice (archive_of 8 ''bob'') =
     Some (Some [1], estore_alice\<lparr>embed_calls := [content chunk_x, content chunk_x],
        user_content := [\<lparr>uc_user_id = ''alice'', uc_content_id = 1, uc_archive_id = 7, uc_tags = []\<rparr>,
                         \<lparr>uc_user_id = ''bob'', uc_content_id = 1, uc_archive_id = 8, uc_tags = []\<rparr>]\<rparr>) \<and>
   rows_for estore_twin (hashContent eenv_ok ''http://x'' (content chunk_x)) (index chunk_x) =
     [row_x, row_x\<lparr>c_id := 2\<rparr>] \<and>
   processArchiveWithSharedEmbeddings eenv_ok estore_twin (archive_of 8 ''bob'') =
     Some (Some [1], estore_twin\<lparr>embed_calls := [content chunk_x, content chunk_x],
        user_content := [\<lparr>uc_user_id = ''alice'', uc_content_id = 1, uc_archive_id = 7, uc_tags = []\<rparr>,
                         \<lparr>uc_user_id = ''bob'', uc_content_id = 1, uc_archive_id = 8, uc_tags = []\<rparr>]\<rparr>) \<and>
   rows_for estore_zero_id (hashContent eenv_ok ''http://x'' (content chunk_x)) (index chunk_x) =
     [row_x\<lparr>c_id := 0\<rparr>] \<and>
   processArchiveWithSharedEmbeddings eenv_ok estore_zero_id (archive_of 8 ''bob'') =
     Some (Some [], estore_zero_id)"
  by (simp add: processArchiveWithSharedEmbeddings_def chunk_x_text) (simp add: embed_eval)

text \<open>
  Claim C2, amended. A chunk for which the look-up returns a row with a truthy id is
  given that id, neither the provider nor the content store is touched, and the id is
  linked to the user's archive unless the link write fails. When the provider embeds
  every chunk, no store call fails and the content store holds one row for each hash and
  index, all with truthy ids, the ids of a first archive are those of its chunks in the
  content store, and a second archive of the same URL with the same content
  (another user's) gets the same ids, linked to it as well, without any call of the
  provider and without a write to the content store.
\<close>

theorem shared_embedding_reuse:
  "(lookup_content env st (hashContent env (a_url a) (content ch)) (index ch) = Some j \<and> j \<noteq> 0 \<longrightarrow>
      (\<exists>st'. process_chunk env a (ids, st) ch = (ids @ [j], st') \<and>
             content_embeddings st' = content_embeddings st \<and> embed_calls st' = embed_calls st \<and>
             (\<not> link_error env st (a_user_id a) j (a_id a) \<longrightarrow> linked st' a j))) \<and>
   (genAI env \<and> (\<forall>st t. embedContent env st t \<noteq> None) \<and>
    (\<forall>st h i. \<not> lookup_error env st h i) \<and> (\<forall>st h i. \<not> rpc_error env st h i) \<and>
    (\<forall>st u c i. \<not> link_error env st u c i) \<and>
    unique_content st \<and> truthy_ids st \<and> a_url b = a_url a \<and> fullText b = fullText a \<and>
    processArchiveWithSharedEmbeddings env st a = Some (Some idsA, stA) \<longrightarrow>
      (\<exists>cs stB. chunkText (fullText a) 1500 300 = Some cs \<and>
           list_all2 (stored_as env (a_url a) stA) cs idsA \<and> list_all (linked stA a) idsA \<and>
           processArchiveWithSharedEmbeddings env stA b = Some (Some idsA, stB) \<and>
           embed_calls stB = embed_calls stA \<and> content_embeddings stB = content_embeddings stA \<and>
           list_all (linked stB a) idsA \<and> list_all (linked stB b) idsA))"
proof (intro conjI impI)
  assume h: "lookup_content env st (hashContent env (a_url a) (content ch)) (index ch) = Some j \<and> j \<noteq> 0"
  from process_chunk_reuses [of env st a ch j ids] h
  show "\<exists>st'. process_chunk env a (ids, st) ch = (ids @ [j], st') \<and>
             content_embeddings st' = content_embeddings st \<and> embed_calls st' = embed_calls st \<and>
             (\<not> link_error env st (a_user_id a) j (a_id a) \<longrightarrow> linked st' a j)"
    by blast
next
  assume h: "genAI env \<and> (\<forall>st t. embedContent env st t \<noteq> None) \<and>
    (\<forall>st h i. \<not> lookup_error env st h i) \<and> (\<forall>st h i. \<not> rpc_error env st h i) \<and>
    (\<forall>st u c i. \<not> link_error env st u c i) \<and>
    unique_content st \<and> truthy_ids st \<and> a_url b = a_url a \<and> fullText b = fullText a \<and>
    processArchiveWithSharedEmbeddings env st a = Some (Some idsA, stA)"
  show "\<exists>cs stB. chunkText (fullText a) 1500 300 = Some cs \<and>
           list_all2 (stored_as env (a_url a) stA) cs idsA \<and> list_all (linked stA a) idsA \<and>
           processArchiveWithSharedEmbeddings env stA b = Some (Some idsA, stB) \<and>
           embed_calls stB = embed_calls stA \<and> content_embeddings stB = content_embeddings stA \<and>
           list_all (linked stB a) idsA \<and> list_all (linked stB b) idsA"
    by (rule two_users_reuse [of env st b a idsA stA]) (use h in simp_all)
qed

theorem shared_embedding_reuse_witness:
  "processArchiveWithSharedEmbeddings eenv_ok estore_empty (archive_of 7 ''alice'') =
     Some (Some [1], estore_alice) \<and>
   (\<exists>stB. processArchiveWithSharedEmbeddings eenv_ok estore_alice (archive_of 8 ''bob'') = Some (Some [1], stB) \<and>
          embed_calls stB = embed_calls estore_alice \<and>
          content_embeddings stB = content_embeddings estore_alice \<and>
          linked stB (archive_of 7 ''alice'') 1 \<and> linked stB (archive_of 8 ''bob'') 1) \<and>
   (\<exists>st'. process_chunk eenv_ok (archive_of 8 ''bob'') ([], estore_alice) chunk_x = ([1], st') \<and>
          embed_calls st' = embed_calls estore_alice \<and> linked st' (archive_of 8 ''bob'') 1)"
proof (intro conjI)
  show a: "processArchiveWithSharedEmbeddings eenv_ok estore_empty (archive_of 7 ''alice'') =
     Some (Some [1], estore_alice)" by (rule alice_first_run)
  have cfg: "genAI eenv_ok" "\<forall>st t. embedContent eenv_ok st t \<noteq> None"
    "\<forall>st h i. \<not> lookup_error eenv_ok st h i" "\<forall>st h i. \<not> rpc_error eenv_ok st h i"
    "\<forall>st u c i. \<not> link_error eenv_ok st u c i"
    by (simp_all add: eenv_ok_def)
  have u: "unique_content estore_empty" "truthy_ids estore_empty"
    by (simp_all add: unique_content_def truthy_ids_def estore_empty_def)
  have same: "a_url (archive_of 8 ''bob'') = a_url (archive_of 7 ''alice'')"
    "fullText (archive_of 8 ''bob'') = fullText (archive_of 7 ''alice'')"
    by (simp_all add: archive_of_def fullText_def)
  from conjunct2 [OF shared_embedding_reuse [where env = eenv_ok and st = estore_empty
      and a = "archive_of 7 ''alice''" and b = "archive_of 8 ''bob''" and idsA = "[1]"
      and stA = estore_alice]] cfg u same a
  have "\<exists>cs stB. chunkText (fullText (archive_of 7 ''alice'')) 1500 300 = Some cs \<and>
           list_all2 (stored_as eenv_ok (a_url (archive_of 7 ''alice'')) estore_alice) cs [1] \<and>
           list_all (linked estore_alice (archive_of 7 ''alice'')) [1] \<and>
           processArchiveWithSharedEmbeddings eenv_ok estore_alice (archive_of 8 ''bob'') = Some (Some [1], stB) \<and>
           embed_calls stB = embed_calls estore_alice \<and>
           content_embeddings stB = content_embeddings estore_alice \<and>
           list_all (linked stB (archive_of 7 ''alice'')) [1] \<and>
           list_all (linked stB (archive_of 8 ''bob'')) [1]"
    by blast
  then show "\<exists>stB. processArchiveWithSharedEmbeddings eenv_ok estore_alice (archive_of 8 ''bob'') = Some (Some [1], stB) \<and>
          embed_calls stB = embed_calls estore_alice \<and>
          content_embeddings stB = content_embeddings estore_alice \<and>
          linked stB (archive_of 7 ''alice'') 1 \<and> linked stB (archive_of 8 ''bob'') 1"
    by auto
  have l: "lookup_content eenv_ok estore_alice
      (hashContent eenv_ok (a_url (archive_of 8 ''bob'')) (content chunk_x)) (index chunk_x) = Some 1"
    by (simp add: embed_eval)
  have nle: "\<not> link_error eenv_ok estore_alice (a_user_id (archive_of 8 ''bob'')) 1 (a_id (archive_of 8 ''bob''))"
    by (simp add: eenv_ok_def)
  from conjunct1 [OF shared_embedding_reuse [where env = eenv_ok and st = estore_alice
      and a = "archive_of 8 ''bob''" and ch = chunk_x and j = 1 and ids = "[]"]] l nle
  show "\<exists>st'. process_chunk eenv_ok (archive_of 8 ''bob'') ([], estore_alice) chunk_x = ([1], st') \<and>
          embed_calls st' = embed_calls estore_alice \<and> linked st' (archive_of 8 ''bob'') 1"
    by auto
qed

text \<open>
  Claim C8 says that a chunk for which the provider returns no embedding is still stored,
  without a vector, and that the remaining chunks are processed. The store is written
  only inside \<open>if (embedding)\<close>: with an unavailable provider the table stays empty.
\<close>

theorem unavailable_chunk_stored_counterexample:
  "embedContent eenv_unavailable estore_empty (content chunk_x) = None \<and>
   chunkText (fullText (archive_of 7 ''alice'')) 1500 300 = Some [chunk_x] \<and>
   processArchiveWithSharedEmbeddings eenv_unavailable estore_empty (archive_of 7 ''alice'') =
     Some (Some [], \<lparr>content_embeddings = [], user_content = [], next_content_id = 1,
                      embed_calls = [content chunk_x]\<rparr>)"
  by (simp add: processArchiveWithSharedEmbeddings_def chunk_x_text) (simp add: embed_eval)

text \<open>
  Claim C8, amended. When the provider returns no embedding for a chunk that the
  look-up does not find, the chunk is neither stored nor linked (the only effect is the
  call of the provider), and the remaining chunks are processed from that state.
\<close>

theorem unavailable_chunk_not_stored:
  assumes "genAI env"
    and "lookup_content env st (hashContent env (a_url a) (content ch)) (index ch) = None"
    and "embedContent env st (take 10000 (content ch)) = None"
  shows "foldl (process_chunk env a) (ids, st) (ch # rest) =
           foldl (process_chunk env a)
             (ids, st\<lparr>embed_calls := embed_calls st @ [take 10000 (content ch)]\<rparr>) rest"
  using process_chunk_unavailable [OF assms] by simp

theorem unavailable_chunk_not_stored_witness:
  "foldl (process_chunk eenv_unavailable (archive_of 7 ''alice'')) ([], estore_empty) [chunk_x, chunk_x] =
     foldl (process_chunk eenv_unavailable (archive_of 7 ''alice''))
       ([], estore_empty\<lparr>embed_calls := embed_calls estore_empty @ [take 10000 (content chunk_x)]\<rparr>) [chunk_x]"
proof (rule unavailable_chunk_not_stored)
  show "genAI eenv_unavailable" by (simp add: eenv_unavailable_def eenv_ok_def)
  show "lookup_content eenv_unavailable estore_empty
     (hashContent eenv_unavailable (a_url (archive_of 7 ''alice'')) (content chunk_x)) (index chunk_x) = None"
    by (simp add: lookup_content_def rows_for_def estore_empty_def eenv_unavailable_def eenv_ok_def)
  show "embedContent eenv_unavailable estore_empty (take 10000 (content chunk_x)) = None"
    by (simp add: eenv_unavailable_def eenv_ok_def)
qed


section \<open>Properties of the search endpoint\<close>

lemma insert_cmp_by_relevance:
  "insert_cmp by_relevance x ys = insort_key (\<lambda>g. - relevance_score g) x ys"
  by (induction ys) (auto simp: by_relevance_def)

lemma js_sort_by_relevance:
  "js_sort by_relevance xs = sort_key (\<lambda>g. - relevance_score g) xs"
  by (induction xs) (simp_all add: js_sort_def insert_cmp_by_relevance)

lemma sort_key_descending:
  "sorted_wrt (\<lambda>a b. relevance_score b \<le> relevance_score a) (sort_key (\<lambda>g. - relevance_score g) xs)"
proof -
  have "sorted (map (\<lambda>g. - relevance_score g) (sort_key (\<lambda>g. - relevance_score g) xs))"
    by (rule sorted_sort_key)
  then show ?thesis
    by (simp add: sorted_map)
qed

lemma sort_key_ties:
  "filter (\<lambda>g. relevance_score g = s) (sort_key (\<lambda>g. - relevance_score g) xs) =
   filter (\<lambda>g. relevance_score g = s) xs"
proof -
  have "filter (\<lambda>g. - relevance_score g = - s) (sort_key (\<lambda>g. - relevance_score g) xs) =
        filter (\<lambda>g. - relevance_score g = - s) xs"
    by (rule sort_key_stable)
  then show ?thesis by simp
qed

lemma js_slice_prefix: "0 \<le> n \<Longrightarrow> js_slice xs 0 n = take (nat n) xs"
  by (auto simp: js_slice_def Let_def min_def)

lemma object_values_insertion_order:
  "list_all (\<lambda>p. \<not> is_array_index (fst p)) obj \<Longrightarrow> object_values obj = map snd obj"
  by (simp add: object_values_def list_all_iff filter_empty_conv filter_id_conv)

lemma add_chunk_keeps:
  "add_chunk env query result g = Inr g' \<Longrightarrow> g_id g' = g_id g \<and> relevance_score g' = relevance_score g"
  by (auto simp: add_chunk_def Let_def split: if_splits sum.splits)

lemma new_group_id_score:
  "new_group env query result = Inr g \<Longrightarrow> g_id g = archiveId_of result \<and> relevance_score g = hit_score result"
  by (auto simp: new_group_def hit_score_def Let_def split: sum.splits)

lemma group_hit_id_score:
  assumes gh: "group_hit env query obj result = Inr obj'"
    and d: "distinct (map fst obj)"
    and pk: "archiveId_of result \<notin> set object_prototype_keys"
  shows "map id_score obj' =
           (if archiveId_of result \<in> set (map fst obj) then map id_score obj
            else map id_score obj @ [(archiveId_of result, archiveId_of result, hit_score result)])"
proof (cases "map_of obj (archiveId_of result)")
  case None
  then have notin: "archiveId_of result \<notin> set (map fst obj)" by (simp add: map_of_eq_None_iff)
  from gh None pk obtain g g' where g: "new_group env query result = Inr g"
    and g': "add_chunk env query result g = Inr g'" and o: "obj' = obj @ [(archiveId_of result, g')]"
    by (auto simp: group_hit_def Let_def split: sum.splits)
  from new_group_id_score [OF g] add_chunk_keeps [OF g']
  have "g_id g' = archiveId_of result" "relevance_score g' = hit_score result" by simp_all
  with o notin show ?thesis by (simp add: id_score_def)
next
  case (Some g)
  then have isin: "archiveId_of result \<in> set (map fst obj)"
    by (metis map_of_eq_None_iff option.distinct(1) set_map)
  from Some have mem: "(archiveId_of result, g) \<in> set obj" by (rule map_of_SomeD)
  from gh Some obtain g' where g': "add_chunk env query result g = Inr g'"
    and o: "obj' = map (\<lambda>p. if fst p = archiveId_of result then (archiveId_of result, g') else p) obj"
    by (auto simp: group_hit_def Let_def split: sum.splits)
  have "id_score (if fst p = archiveId_of result then (archiveId_of result, g') else p) = id_score p"
    if p: "p \<in> set obj" for p
  proof (cases "fst p = archiveId_of result")
    case False
    then show ?thesis by simp
  next
    case True
    obtain k v where kv: "p = (k, v)" by (cases p)
    with True p have "(archiveId_of result, v) \<in> set obj" by simp
    with d mem have "v = g" by (meson eq_key_imp_eq_value)
    with kv True add_chunk_keeps [OF g'] show ?thesis by (simp add: id_score_def)
  qed
  then have "map id_score obj' = map id_score obj" unfolding o by (simp add: comp_def)
  with isin show ?thesis by simp
qed

lemma map_fst_id_score: "map fst (map id_score obj) = map fst obj"
  by (simp add: id_score_def comp_def)

lemma group_all_id_score:
  "group_all env query obj hs = Inr obj' \<Longrightarrow> distinct (map fst obj) \<Longrightarrow>
   list_all (\<lambda>h. archiveId_of h \<notin> set object_prototype_keys) hs \<Longrightarrow>
     map id_score obj' = map id_score obj @
        map (\<lambda>h. (archiveId_of h, archiveId_of h, hit_score h)) (first_hits (map fst obj) hs)"
proof (induction hs arbitrary: obj)
  case Nil
  then show ?case by simp
next
  case (Cons h hs)
  from Cons.prems(1) obtain obj1 where s: "group_hit env query obj h = Inr obj1"
    and r: "group_all env query obj1 hs = Inr obj'"
    by (auto split: sum.splits)
  from Cons.prems(3) have pk: "archiveId_of h \<notin> set object_prototype_keys"
    and rest: "list_all (\<lambda>h. archiveId_of h \<notin> set object_prototype_keys) hs" by simp_all
  note k = group_hit_id_score [OF s Cons.prems(2) pk]
  show ?case
  proof (cases "archiveId_of h \<in> set (map fst obj)")
    case True
    with k have e: "map id_score obj1 = map id_score obj" by simp
    then have f: "map fst obj1 = map fst obj" using map_fst_id_score by metis
    with Cons.prems(2) have d1: "distinct (map fst obj1)" by simp
    from Cons.IH [OF r d1 rest] e f True show ?thesis by simp
  next
    case False
    with k have e: "map id_score obj1 = map id_score obj @ [(archiveId_of h, archiveId_of h, hit_score h)]"
      by simp
    have "map fst obj1 = map fst (map id_score obj1)" by (simp only: map_fst_id_score)
    also have "\<dots> = map fst obj @ [archiveId_of h]" unfolding e by (simp add: id_score_def comp_def)
    finally have f: "map fst obj1 = map fst obj @ [archiveId_of h]" .
    with Cons.prems(2) False have d1: "distinct (map fst obj1)" by simp
    from Cons.IH [OF r d1 rest] e f False show ?thesis by simp
  qed
qed

lemma first_hits_subset: "set (first_hits seen hs) \<subseteq> set hs"
  by (induction hs arbitrary: seen) auto

lemma search_example:
  "search senv_plain ''q'' ''u'' [hit_of ''b'' 1, hit_of ''a'' 1, hit_of ''c'' 3, hit_of ''b'' 5] (Some 2) =
     Inr [group_of ''c'' 3, group_of ''b'' 1]"
  by code_simp

text \<open>
  Claim C9 says that the groups are sorted by \<open>relevance_score\<close> descending, that groups
  of equal score keep the order in which their archives first appear in the collaborator's
  results, and that the output is cut to the first \<open>limit\<close> groups. The groups are
  collected in an object keyed by archive id, and \<open>Object.values\<close> lists integer-like keys
  first, in ascending order: with the ids 2 and 1 of equal score, in this order, the
  answer lists 1 before 2. An archive whose id is the name of an inherited property, such
  as \<open>constructor\<close>, gets no group at all: it is missing from the answer whatever its
  score.
\<close>

theorem search_integer_ids_counterexample:
  "search senv_plain ''q'' ''u'' [hit_of ''2'' 1, hit_of ''1'' 1] (Some 20) =
     Inr [group_of ''1'' 1, group_of ''2'' 1] \<and>
   map archiveId_of (first_hits [] [hit_of ''2'' 1, hit_of ''1'' 1]) = [''2'', ''1''] \<and>
   search senv_plain ''q'' ''u'' [hit_of ''constructor'' 5, hit_of ''a'' 1] (Some 20) =
     Inr [group_of ''a'' 1]"
  by code_simp

text \<open>
  Claim C9, amended. When no archive id is an integer-like key or the name of an
  inherited property (ids such as UUIDs) and the limit is a non-negative integer, there
  is one group for each archive, in the order in which the archives first appear in the
  collaborator's results and with the score of the archive's first result, and the answer
  is the first \<open>limit\<close> of these groups after sorting them by \<open>relevance_score\<close>
  descending, groups of equal score keeping their first-seen order.
\<close>

theorem search_ranking:
  assumes "search env query userId hits limit = Inr out"
    and "list_all (\<lambda>h. plain_key (archiveId_of h)) hits"
    and "limit = Some n" and "0 \<le> n"
  shows "map (\<lambda>g. (g_id g, relevance_score g)) (groups_of env query hits) =
           map (\<lambda>h. (archiveId_of h, hit_score h)) (first_hits [] hits) \<and>
         out = take (nat n) (sort_key (\<lambda>g. - relevance_score g) (groups_of env query hits)) \<and>
         sorted_wrt (\<lambda>a b. relevance_score b \<le> relevance_score a)
           (sort_key (\<lambda>g. - relevance_score g) (groups_of env query hits)) \<and>
         (\<forall>s. filter (\<lambda>g. relevance_score g = s) (sort_key (\<lambda>g. - relevance_score g) (groups_of env query hits)) =
              filter (\<lambda>g. relevance_score g = s) (groups_of env query hits))"
proof -
  from assms(1) obtain obj where g: "group_all env query [] hits = Inr obj"
    and out: "out = js_slice (js_sort by_relevance (object_values obj)) 0 (limit_value limit)"
    by (auto simp: search_def split: if_splits sum.splits)
  from g have go: "groups_of env query hits = map snd obj" by (simp add: groups_of_def)
  from assms(2) have pk: "list_all (\<lambda>h. archiveId_of h \<notin> set object_prototype_keys) hits"
    and ai: "\<forall>h \<in> set hits. \<not> is_array_index (archiveId_of h)"
    by (auto simp: list_all_iff plain_key_def)
  from group_all_id_score [OF g _ pk]
  have t: "map id_score obj = map (\<lambda>h. (archiveId_of h, archiveId_of h, hit_score h)) (first_hits [] hits)"
    by simp
  have "map fst obj = map fst (map id_score obj)" by (simp only: map_fst_id_score)
  also have "\<dots> = map archiveId_of (first_hits [] hits)" unfolding t by (simp add: comp_def)
  finally have keys: "map fst obj = map archiveId_of (first_hits [] hits)" .
  have "\<not> is_array_index k" if "k \<in> set (map fst obj)" for k
    using that keys first_hits_subset [of "[]" hits] ai by auto
  then have "list_all (\<lambda>p. \<not> is_array_index (fst p)) obj"
    by (auto simp: list_all_iff)
  then have ov: "object_values obj = map snd obj" by (rule object_values_insertion_order)
  have "map (\<lambda>g. (g_id g, relevance_score g)) (map snd obj) = map snd (map id_score obj)"
    by (simp add: id_score_def comp_def)
  also have "\<dots> = map (\<lambda>h. (archiveId_of h, hit_score h)) (first_hits [] hits)"
    unfolding t by (simp add: comp_def)
  finally have a: "map (\<lambda>g. (g_id g, relevance_score g)) (groups_of env query hits) =
           map (\<lambda>h. (archiveId_of h, hit_score h)) (first_hits [] hits)" using go by simp
  have b: "out = take (nat n) (sort_key (\<lambda>g. - relevance_score g) (groups_of env query hits))"
    using out ov assms(3,4) go by (simp add: limit_value_def js_slice_prefix js_sort_by_relevance)
  from a b show ?thesis using sort_key_descending sort_key_ties by blast
qed

theorem search_ranking_witness:
  "list_all (\<lambda>h. plain_key (archiveId_of h))
     [hit_of ''b'' 1, hit_of ''a'' 1, hit_of ''c'' 3, hit_of ''b'' 5] \<and>
   search senv_plain ''q'' ''u'' [hit_of ''b'' 1, hit_of ''a'' 1, hit_of ''c'' 3, hit_of ''b'' 5] (Some 2) =
     Inr [group_of ''c'' 3, group_of ''b'' 1] \<and>
   map (\<lambda>g. (g_id g, relevance_score g))
     (groups_of senv_plain ''q'' [hit_of ''b'' 1, hit_of ''a'' 1, hit_of ''c'' 3, hit_of ''b'' 5]) =
     [(''b'', 1), (''a'', 1), (''c'', 3)] \<and>
   [group_of ''c'' 3, group_of ''b'' 1] =
     take 2 (sort_key (\<lambda>g. - relevance_score g)
       (groups_of senv_plain ''q'' [hit_of ''b'' 1, hit_of ''a'' 1, hit_of ''c'' 3, hit_of ''b'' 5]))"
proof -
  let ?hits = "[hit_of ''b'' 1, hit_of ''a'' 1, hit_of ''c'' 3, hit_of ''b'' 5]"
  have ids: "list_all (\<lambda>h. plain_key (archiveId_of h)) ?hits"
    by code_simp
  have fh: "map (\<lambda>h. (archiveId_of h, hit_score h)) (first_hits [] ?hits) = [(''b'', 1), (''a'', 1), (''c'', 3)]"
    by code_simp
  have "(0::int) \<le> 2" by simp
  note r = search_ranking [OF search_example ids refl this]
  from r have a: "map (\<lambda>g. (g_id g, relevance_score g)) (groups_of senv_plain ''q'' ?hits) =
      [(''b'', 1), (''a'', 1), (''c'', 3)]"
    unfolding fh by (rule conjunct1)
  from r have "[group_of ''c'' 3, group_of ''b'' 1] =
     take (nat 2) (sort_key (\<lambda>g. - relevance_score g) (groups_of senv_plain ''q'' ?hits))"
    by (rule conjunct1 [OF conjunct2])
  then have b: "[group_of ''c'' 3, group_of ''b'' 1] =
     take 2 (sort_key (\<lambda>g. - relevance_score g) (groups_of senv_plain ''q'' ?hits))"
    by simp
  from ids search_example a b show ?thesis by blast
qed

end
